theory Spec2Isabelle
  imports Complex_Main "HOL-Library.Word" "HOL-Library.Multiset" "HOL-Library.Product_Lexorder"
begin

section \<open>Conventions of the embedding\<close>

text \<open>
  The development embeds the dual ratio test of \<^verbatim>\<open>simplex/HDualRow.cpp\<close> and the
  aging operations of \<^verbatim>\<open>mip/HighsCutPool.h\<close>.

  \<^item> A C++ \<^verbatim>\<open>double\<close> is a \<^typ>\<open>real\<close>; overflow and NaN are outside the model. The
    only non-finite value the code stores, \<^verbatim>\<open>HIGHS_CONST_INF\<close> in \<^verbatim>\<open>workTheta\<close>, has a
    constructor of its own.
  \<^item> In the two loops of \<^verbatim>\<open>chooseFinal\<close> (the large-step reduction and
    \<^verbatim>\<open>chooseFinalWorkGroupQuad\<close>) the rounded result of a product or a quotient decides
    whether an entry is admitted. There every floating-point operation, and every literal
    that is not a double, is followed by the rounding of the machine, the field
    \<open>rounding\<close> of the state: the nearest double for IEEE arithmetic, the identity for
    exact arithmetic. It is an arbitrary function, so what is proved of the loops holds
    for every rounding. The other functions, and the steps of \<^verbatim>\<open>chooseFinal\<close> after its
    loops, are in exact arithmetic: the decimal literals are the rationals they denote
    (\<^verbatim>\<open>1e-9\<close> is \<open>1 / 10 ^ 9\<close>). A step bound that \<^verbatim>\<open>choosePossible\<close> stored after a
    rounded division is a state with that \<^verbatim>\<open>workTheta\<close>.
  \<^item> The arrays the class borrows through raw pointers from the solver state
    (\<^verbatim>\<open>workMove\<close>, \<^verbatim>\<open>workDual\<close>, \<^verbatim>\<open>workRange\<close>, \<^verbatim>\<open>work_devex_index\<close>,
    \<^verbatim>\<open>workNumTotPermutation\<close>, \<^verbatim>\<open>nonbasicFlag_\<close>, \<^verbatim>\<open>workValue_\<close>) are stores indexed
    by the column number: functions from \<^typ>\<open>int\<close>.
  \<^item> The vectors the class owns (\<^verbatim>\<open>packIndex\<close>, \<^verbatim>\<open>packValue\<close>, \<^verbatim>\<open>workData\<close>,
    \<^verbatim>\<open>workGroup\<close>) are lists beside their counts. A read outside a vector is undefined
    behaviour in C++. \<^verbatim>\<open>chooseFinalLargeAlpha\<close> and \<^verbatim>\<open>chooseFinal\<close>, which reach one when
    an index is still \<open>-1\<close>, answer \<open>None\<close> there; the properties of the other functions
    read the vectors below their counts only.
  \<^item> Counts and offsets that the code only ever increments from zero are \<^typ>\<open>nat\<close>;
    \<^verbatim>\<open>breakIndex\<close> and \<^verbatim>\<open>breakGroup\<close>, which can be \<open>-1\<close>, are \<^typ>\<open>int\<close>.
  \<^item> The timer calls and the diagnostic printing do not touch the data and are left out.
  \<^item> A member whose C++ name ends in an underscore (\<^verbatim>\<open>ages_\<close>, \<^verbatim>\<open>nonbasicFlag_\<close>,
    \<^verbatim>\<open>workValue_\<close>, \<^verbatim>\<open>cost_\<close>) drops it here, where a name cannot end in one.
\<close>

section \<open>The cut pool: ages of cuts\<close>

text \<open>
  \<^verbatim>\<open>std::vector<int16_t> ages_\<close> is a list of 16-bit words read in two's complement
  (\<^const>\<open>sint\<close>). \<^verbatim>\<open>--ages_[cut]\<close> wraps. The \<^verbatim>\<open>int\<close> arguments \<^verbatim>\<open>cut\<close> (written \<open>c\<close>) and
  \<^verbatim>\<open>agelimit\<close> are integers; \<^verbatim>\<open>-agelimit\<close> is exact (it overflows only at
  \<^verbatim>\<open>INT_MIN\<close>). Indexing the vector outside its size is the error \<open>OutOfRange\<close>, a
  failed \<^verbatim>\<open>assert\<close> is \<open>AssertionFailure\<close>. Of the members of \<^verbatim>\<open>HighsCutPool\<close> the
  aging operations touch \<^verbatim>\<open>ages_\<close> only; \<^verbatim>\<open>agelim_\<close> stands for the rest of the pool,
  which they leave alone.
\<close>

datatype error = AssertionFailure | OutOfRange

record HighsCutPool =
  ages :: "16 word list"
  agelim :: int

definition resetAge :: "HighsCutPool \<Rightarrow> int \<Rightarrow> error + HighsCutPool" where
  "resetAge p c =
     (if c < 0 \<or> int (length (ages p)) \<le> c then Inl OutOfRange
      else if sint (ages p ! nat c) < 0
        then Inr (p\<lparr>ages := (ages p)[nat c := - 1]\<rparr>)
        else Inr (p\<lparr>ages := (ages p)[nat c := 0]\<rparr>))"

text \<open>
  \<^verbatim>\<open>assert(ages_[cut] < 0)\<close> is compiled out when \<^verbatim>\<open>NDEBUG\<close> is defined; the first
  argument says whether it is.
\<close>

definition ageLpCut :: "bool \<Rightarrow> HighsCutPool \<Rightarrow> int \<Rightarrow> int \<Rightarrow> error + (bool \<times> HighsCutPool)" where
  "ageLpCut ndebug p c agelimit =
     (if c < 0 \<or> int (length (ages p)) \<le> c then Inl OutOfRange
      else if \<not> ndebug \<and> \<not> sint (ages p ! nat c) < 0 then Inl AssertionFailure
      else
        let a = ages p ! nat c - 1 in
        if sint a < - agelimit
          then Inr (True, p\<lparr>ages := (ages p)[nat c := 0]\<rparr>)
          else Inr (False, p\<lparr>ages := (ages p)[nat c := a]\<rparr>))"

text \<open>
  A caller aging one cut for \<open>n\<close> rounds: the answers of the calls in order, up to the
  first error.
\<close>

fun ageLpCut_rounds ::
  "bool \<Rightarrow> int \<Rightarrow> int \<Rightarrow> nat \<Rightarrow> HighsCutPool \<Rightarrow> error + (bool list \<times> HighsCutPool)" where
  "ageLpCut_rounds ndebug c agelimit 0 p = Inr ([], p)"
| "ageLpCut_rounds ndebug c agelimit (Suc n) p =
     (case ageLpCut ndebug p c agelimit of
        Inl e \<Rightarrow> Inl e
      | Inr (b, p') \<Rightarrow>
          (case ageLpCut_rounds ndebug c agelimit n p' of
             Inl e \<Rightarrow> Inl e
           | Inr (bs, p'') \<Rightarrow> Inr (b # bs, p'')))"

section \<open>The dual ratio test: state\<close>

text \<open>
  \<^verbatim>\<open>workTheta\<close> is finite or \<^verbatim>\<open>HIGHS_CONST_INF\<close>.
  Modelled from the spec: \<^verbatim>\<open>lp_data/HConst.h\<close>, which defines \<^verbatim>\<open>HIGHS_CONST_INF\<close>, is not
  among the sources; the step bound is said to stay infinite when no candidate is
  included, so the constant is positive infinity.
\<close>

datatype dbl = Fin real | PInf

text \<open>
  The fields of \<^verbatim>\<open>HDualRow\<close> and of the solver state \<^verbatim>\<open>workHMO\<close> that the functions
  below read or write.
\<close>

record HDualRow =
  rounding :: "real \<Rightarrow> real"
  update_count :: int
  dual_feasibility_tolerance :: real
  cost :: real
  updated_dual_objective_value :: real
  nonbasicFlag :: "int \<Rightarrow> int"
  workValue :: "int \<Rightarrow> real"
  workMove :: "int \<Rightarrow> int"
  workDual :: "int \<Rightarrow> real"
  workRange :: "int \<Rightarrow> real"
  work_devex_index :: "int \<Rightarrow> int"
  workNumTotPermutation :: "int \<Rightarrow> int"
  packCount :: nat
  packIndex :: "int list"
  packValue :: "real list"
  workDelta :: real
  workTheta :: dbl
  workCount :: nat
  workData :: "(int \<times> real) list"
  workGroup :: "nat list"
  workPivot :: int
  workAlpha :: real
  computed_edge_weight :: real

text \<open>
  The base of the concrete examples: a row with nothing packed, exact arithmetic, zero
  duals, unit moves, ranges, flags and devex weights, the identity permutation and the
  tolerance \<open>1e-7\<close>.
\<close>

definition row0 :: HDualRow where
  "row0 =
     \<lparr>rounding = (\<lambda>x. x), update_count = 0, dual_feasibility_tolerance = 1 / 10 ^ 7,
      cost = 1,
      updated_dual_objective_value = 0, nonbasicFlag = (\<lambda>_. 1), workValue = (\<lambda>_. 0),
      workMove = (\<lambda>_. 1), workDual = (\<lambda>_. 0), workRange = (\<lambda>_. 1),
      work_devex_index = (\<lambda>_. 1), workNumTotPermutation = (\<lambda>c. c),
      packCount = 0, packIndex = [], packValue = [], workDelta = 1, workTheta = PInf,
      workCount = 0, workData = [], workGroup = [], workPivot = - 1, workAlpha = 0,
      computed_edge_weight = 0\<rparr>"

section \<open>updateDual\<close>

text \<open>
  One pass of the loop body for the packed entry \<open>i\<close>: the pair is the dual array and
  the local \<^verbatim>\<open>dual_objective_value_change\<close>.
\<close>

definition updateDual_step ::
  "HDualRow \<Rightarrow> real \<Rightarrow> nat \<Rightarrow> (int \<Rightarrow> real) \<times> real \<Rightarrow> (int \<Rightarrow> real) \<times> real" where
  "updateDual_step s theta i = (\<lambda>(wd, change).
     let iCol = packIndex s ! i;
         wd' = wd(iCol := wd iCol - theta * (packValue s ! i));
         delta_dual = theta * (packValue s ! i);
         local_value = workValue s iCol;
         local_dual_objective_change =
           real_of_int (nonbasicFlag s iCol) * (- local_value * delta_dual) * cost s
     in (wd', change + local_dual_objective_change))"

definition updateDual :: "HDualRow \<Rightarrow> real \<Rightarrow> HDualRow" where
  "updateDual s theta =
     (let (wd, change) = fold (updateDual_step s theta) [0..<packCount s] (workDual s, 0)
      in s\<lparr>workDual := wd,
            updated_dual_objective_value := updated_dual_objective_value s + change\<rparr>)"

section \<open>computeDevexWeight\<close>

definition computeDevexWeight_step :: "HDualRow \<Rightarrow> nat \<Rightarrow> real \<Rightarrow> real" where
  "computeDevexWeight_step s el_n w =
     (let vr_n = packIndex s ! el_n in
      if nonbasicFlag s vr_n = 0 then w
      else
        let pv = real_of_int (work_devex_index s vr_n) * (packValue s ! el_n) in
        if pv \<noteq> 0 then w + pv * pv else w)"

text \<open>
  The argument \<^verbatim>\<open>slice\<close> (here \<open>slice_no\<close>) is only printed, and only when the constant
  \<^verbatim>\<open>rp_computed_edge_weight\<close> is true; it is false.
\<close>

definition computeDevexWeight :: "HDualRow \<Rightarrow> int \<Rightarrow> HDualRow" where
  "computeDevexWeight s slice_no =
     s\<lparr>computed_edge_weight := fold (computeDevexWeight_step s) [0..<packCount s] 0\<rparr>"

section \<open>choosePossible\<close>

definition Ta_of :: "int \<Rightarrow> real" where
  "Ta_of cnt = (if cnt < 10 then 1 / 10 ^ 9 else if cnt < 20 then 3 / 10 ^ 8 else 1 / 10 ^ 6)"

definition sourceOut_of :: "real \<Rightarrow> int" where
  "sourceOut_of delta = (if delta < 0 then - 1 else 1)"

text \<open>
  \<^verbatim>\<open>alpha = packValue[i] * sourceOut * move\<close> and
  \<^verbatim>\<open>relax = workDual[iCol] * move + Td\<close> for the packed entry \<open>i\<close>.
\<close>

definition pack_alpha :: "HDualRow \<Rightarrow> nat \<Rightarrow> real" where
  "pack_alpha s i =
     packValue s ! i * real_of_int (sourceOut_of (workDelta s)) *
       real_of_int (workMove s (packIndex s ! i))"

definition pack_relax :: "HDualRow \<Rightarrow> nat \<Rightarrow> real" where
  "pack_relax s i =
     workDual s (packIndex s ! i) * real_of_int (workMove s (packIndex s ! i)) +
       dual_feasibility_tolerance s"

text \<open>
  The test \<^verbatim>\<open>workTheta * alpha > relax\<close>. With \<^verbatim>\<open>workTheta\<close> infinite the product is
  infinite for a positive \<^verbatim>\<open>alpha\<close>, NaN for zero and minus infinity for a negative one,
  and only the first exceeds a finite \<^verbatim>\<open>relax\<close>.
\<close>

fun theta_times_gt :: "dbl \<Rightarrow> real \<Rightarrow> real \<Rightarrow> bool" where
  "theta_times_gt (Fin t) alpha relax = (t * alpha > relax)"
| "theta_times_gt PInf alpha relax = (alpha > 0)"

definition choosePossible_step ::
  "HDualRow \<Rightarrow> nat \<Rightarrow> dbl \<times> nat \<times> (int \<times> real) list \<Rightarrow> dbl \<times> nat \<times> (int \<times> real) list" where
  "choosePossible_step s i = (\<lambda>(theta, cnt, wd).
     let Ta = Ta_of (update_count s);
         iCol = packIndex s ! i;
         alpha = pack_alpha s i
     in if alpha > Ta then
          let wd' = wd[cnt := (iCol, alpha)];
              relax = pack_relax s i
          in (if theta_times_gt theta alpha relax then Fin (relax / alpha) else theta,
              Suc cnt, wd')
        else (theta, cnt, wd))"

definition choosePossible :: "HDualRow \<Rightarrow> HDualRow" where
  "choosePossible s =
     (let (theta, cnt, wd) =
            fold (choosePossible_step s) [0..<packCount s] (PInf, 0, workData s)
      in s\<lparr>workTheta := theta, workCount := cnt, workData := wd\<rparr>)"

section \<open>chooseFinal: the large-step reduction\<close>

text \<open>\<^verbatim>\<open>swap(workData[a], workData[b])\<close>.\<close>

definition swap_entries :: "'a list \<Rightarrow> nat \<Rightarrow> nat \<Rightarrow> 'a list" where
  "swap_entries xs a b = xs[a := xs ! b, b := xs ! a]"

text \<open>
  The body of the inner \<^verbatim>\<open>for\<close> of step 1 at index \<open>i\<close>; the triple is
  \<^verbatim>\<open>workData\<close>, \<^verbatim>\<open>workCount\<close> and \<^verbatim>\<open>totalChange\<close>.
\<close>

definition reduce_step ::
  "HDualRow \<Rightarrow> real \<Rightarrow> nat \<Rightarrow> (int \<times> real) list \<times> nat \<times> real \<Rightarrow> (int \<times> real) list \<times> nat \<times> real" where
  "reduce_step s selectTheta i = (\<lambda>(wd, cnt, totalChange).
     let iCol = fst (wd ! i);
         alpha = snd (wd ! i);
         tight = rounding s (real_of_int (workMove s iCol) * workDual s iCol)
     in if rounding s (alpha * selectTheta) \<ge> tight
        then (swap_entries wd cnt i, Suc cnt,
              rounding s (totalChange + rounding s (workRange s iCol * alpha)))
        else (wd, cnt, totalChange))"

text \<open>
  The \<^verbatim>\<open>for (;;)\<close> of step 1. It has no bound of its own, so it is a partial function:
  \<open>None\<close> is the loop that never leaves.
\<close>

partial_function (option) reduce_loop ::
  "HDualRow \<Rightarrow> nat \<Rightarrow> real \<Rightarrow> real \<Rightarrow> (int \<times> real) list \<times> nat \<times> real \<Rightarrow>
   ((int \<times> real) list \<times> nat) option" where
  "reduce_loop s fullCount totalDelta selectTheta st =
     (case fold (reduce_step s selectTheta) [fst (snd st)..<fullCount] st of
        (wd, cnt, totalChange) \<Rightarrow>
          if totalChange \<ge> totalDelta \<or> cnt = fullCount then Some (wd, cnt)
          else reduce_loop s fullCount totalDelta (rounding s (selectTheta * 10))
                 (wd, cnt, totalChange))"

section \<open>chooseFinalWorkGroupQuad\<close>

text \<open>The local variables of the function that live across passes of its \<^verbatim>\<open>while\<close>.\<close>

record QuadLoop =
  q_workData :: "(int \<times> real) list"
  q_workCount :: nat
  q_totalChange :: real
  q_selectTheta :: real
  q_workGroup :: "nat list"
  prev_workCount :: nat
  prev_remainTheta :: real
  prev_selectTheta :: real
  debug_num_loop :: nat

text \<open>
  The body of the inner \<^verbatim>\<open>for\<close> at index \<open>i\<close>; the tuple is \<^verbatim>\<open>workData\<close>,
  \<^verbatim>\<open>workCount\<close>, \<^verbatim>\<open>totalChange\<close> and \<^verbatim>\<open>remainTheta\<close>.
\<close>

definition quad_step ::
  "HDualRow \<Rightarrow> real \<Rightarrow> nat \<Rightarrow> (int \<times> real) list \<times> nat \<times> real \<times> real \<Rightarrow>
   (int \<times> real) list \<times> nat \<times> real \<times> real" where
  "quad_step s selectTheta i = (\<lambda>(wd, cnt, totalChange, remainTheta).
     let Td = dual_feasibility_tolerance s;
         iCol = fst (wd ! i);
         v = snd (wd ! i);
         dual = rounding s (real_of_int (workMove s iCol) * workDual s iCol)
     in if dual \<le> rounding s (selectTheta * v)
        then (swap_entries wd cnt i, Suc cnt,
              rounding s (totalChange + rounding s (v * workRange s iCol)), remainTheta)
        else if rounding s (dual + Td) < rounding s (remainTheta * v)
        then (wd, cnt, totalChange, rounding s (rounding s (dual + Td) / v))
        else (wd, cnt, totalChange, remainTheta))"

text \<open>
  One pass of the \<^verbatim>\<open>while\<close> body up to the stagnation check. The answer \<open>True\<close> is
  the \<^verbatim>\<open>return false\<close> of the check; otherwise the \<^verbatim>\<open>prev_\<close> variables are recorded
  for the next pass.
\<close>

definition quad_pass :: "HDualRow \<Rightarrow> nat \<Rightarrow> QuadLoop \<Rightarrow> bool \<times> QuadLoop" where
  "quad_pass s fullCount q =
     (case fold (quad_step s (q_selectTheta q)) [q_workCount q..<fullCount]
             (q_workData q, q_workCount q, q_totalChange q, rounding s (10 ^ 100)) of
        (wd, cnt, totalChange, remainTheta) \<Rightarrow>
          let q1 = q\<lparr>q_workData := wd, q_workCount := cnt, q_totalChange := totalChange,
                     q_selectTheta := remainTheta, q_workGroup := q_workGroup q @ [cnt],
                     debug_num_loop := Suc (debug_num_loop q)\<rparr>
          in if cnt = prev_workCount q \<and> prev_selectTheta q = remainTheta \<and>
                prev_remainTheta q = remainTheta
             then (True, q1)
             else (False, q1\<lparr>prev_workCount := cnt, prev_remainTheta := remainTheta,
                              prev_selectTheta := remainTheta\<rparr>))"

text \<open>
  The \<^verbatim>\<open>while (selectTheta < 1e18)\<close>. The answer is the function's return value beside
  the final variables.
\<close>

partial_function (option) quad_loop ::
  "HDualRow \<Rightarrow> nat \<Rightarrow> real \<Rightarrow> QuadLoop \<Rightarrow> (bool \<times> QuadLoop) option" where
  "quad_loop s fullCount totalDelta q =
     (if q_selectTheta q < 10 ^ 18 then
        (case quad_pass s fullCount q of
           (stagnant, q') \<Rightarrow>
             if stagnant then Some (False, q')
             else if q_totalChange q' \<ge> totalDelta \<or> q_workCount q' = fullCount
             then Some (True, q')
             else quad_loop s fullCount totalDelta q')
      else Some (True, q))"

definition quad_init :: "HDualRow \<Rightarrow> real \<Rightarrow> QuadLoop" where
  "quad_init s theta =
     \<lparr>q_workData = workData s, q_workCount = 0, q_totalChange = rounding s (1 / 10 ^ 12),
      q_selectTheta = theta, q_workGroup = [0], prev_workCount = 0,
      prev_remainTheta = rounding s (10 ^ 100), prev_selectTheta = theta,
      debug_num_loop = 0\<rparr>"

text \<open>
  With \<^verbatim>\<open>workTheta\<close> infinite the \<^verbatim>\<open>while\<close> is not entered and the function returns
  \<^verbatim>\<open>true\<close> with no group but the initial offset.
\<close>

definition chooseFinalWorkGroupQuad :: "HDualRow \<Rightarrow> (bool \<times> HDualRow) option" where
  "chooseFinalWorkGroupQuad s =
     (case workTheta s of
        PInf \<Rightarrow> Some (True, s\<lparr>workCount := 0, workGroup := [0]\<rparr>)
      | Fin theta \<Rightarrow>
          (case quad_loop s (workCount s) \<bar>workDelta s\<bar> (quad_init s theta) of
             None \<Rightarrow> None
           | Some (ok, q) \<Rightarrow>
               Some (ok, s\<lparr>workData := q_workData q, workCount := q_workCount q,
                            workGroup := q_workGroup q\<rparr>)))"

section \<open>chooseFinalLargeAlpha\<close>

text \<open>
  \<^verbatim>\<open>finalCompare\<close>: the largest magnitude among the first \<^verbatim>\<open>workCount\<close> entries (or
  zero), times \<^verbatim>\<open>0.1\<close>, capped at one.
\<close>

definition finalCompare_of :: "nat \<Rightarrow> (int \<times> real) list \<Rightarrow> real" where
  "finalCompare_of cnt wd = min (1 / 10 * fold (\<lambda>i fc. max fc (snd (wd ! i))) [0..<cnt] 0) 1"

text \<open>
  The inner \<^verbatim>\<open>for\<close> over one group, on the list of its indices; the pair is
  \<^verbatim>\<open>dMaxFinal\<close> and \<^verbatim>\<open>iMaxFinal\<close>. The tie branch reads \<^verbatim>\<open>workData[iMaxFinal]\<close>, which
  lies outside the vector while \<^verbatim>\<open>iMaxFinal\<close> is still \<open>-1\<close>.
\<close>

fun largeAlpha_scan ::
  "(int \<Rightarrow> int) \<Rightarrow> (int \<times> real) list \<Rightarrow> nat list \<Rightarrow> real \<times> int \<Rightarrow> (real \<times> int) option" where
  "largeAlpha_scan perm wd [] acc = Some acc"
| "largeAlpha_scan perm wd (i # js) (dMaxFinal, iMaxFinal) =
     (if length wd \<le> i then None
      else if dMaxFinal < snd (wd ! i) then largeAlpha_scan perm wd js (snd (wd ! i), int i)
      else if dMaxFinal = snd (wd ! i) then
        (if iMaxFinal < 0 \<or> int (length wd) \<le> iMaxFinal then None
         else if perm (fst (wd ! i)) < perm (fst (wd ! nat iMaxFinal))
         then largeAlpha_scan perm wd js (dMaxFinal, int i)
         else largeAlpha_scan perm wd js (dMaxFinal, iMaxFinal))
      else largeAlpha_scan perm wd js (dMaxFinal, iMaxFinal))"

text \<open>
  The outer \<^verbatim>\<open>for\<close>, from \<^verbatim>\<open>iGroup = countGroup - 1\<close> down to zero; the last argument
  is \<^verbatim>\<open>iGroup + 1\<close>. The answer is \<^verbatim>\<open>(breakIndex, breakGroup)\<close>. After the scan of a
  group the code reads \<^verbatim>\<open>workData[iMaxFinal]\<close>, outside the vector when the group had no
  entry of positive magnitude.
\<close>

fun largeAlpha_groups ::
  "(int \<Rightarrow> int) \<Rightarrow> (int \<times> real) list \<Rightarrow> nat list \<Rightarrow> real \<Rightarrow> nat \<Rightarrow> (int \<times> int) option" where
  "largeAlpha_groups perm wd wg finalCompare 0 = Some (- 1, - 1)"
| "largeAlpha_groups perm wd wg finalCompare (Suc iGroup) =
     (case largeAlpha_scan perm wd [wg ! iGroup..<wg ! Suc iGroup] (0, - 1) of
        None \<Rightarrow> None
      | Some (dMaxFinal, iMaxFinal) \<Rightarrow>
          if iMaxFinal < 0 \<or> int (length wd) \<le> iMaxFinal then None
          else if snd (wd ! nat iMaxFinal) > finalCompare then Some (iMaxFinal, int iGroup)
          else largeAlpha_groups perm wd wg finalCompare iGroup)"

text \<open>
  The function reads the members \<^verbatim>\<open>workCount\<close> and \<^verbatim>\<open>workNumTotPermutation\<close> and its
  two vector arguments. \<^verbatim>\<open>countGroup\<close> is \<^verbatim>\<open>workGroup.size() - 1\<close>.
\<close>

definition chooseFinalLargeAlpha ::
  "HDualRow \<Rightarrow> (int \<times> real) list \<Rightarrow> nat list \<Rightarrow> (int \<times> int) option" where
  "chooseFinalLargeAlpha s wd wg =
     (if length wd < workCount s then None
      else largeAlpha_groups (workNumTotPermutation s) wd wg
             (finalCompare_of (workCount s) wd) (length wg - 1))"

section \<open>chooseFinal\<close>

text \<open>
  Step 4 of \<^verbatim>\<open>chooseFinal\<close>: the first \<open>k\<close> entries become the pairs of a column and
  its signed range.
\<close>

definition flip_entries :: "HDualRow \<Rightarrow> (int \<times> real) list \<Rightarrow> nat \<Rightarrow> (int \<times> real) list" where
  "flip_entries s wd k =
     fold (\<lambda>i w. let iCol = fst (w ! i); move = workMove s iCol
                  in w[i := (iCol, real_of_int move * workRange s iCol)]) [0..<k] wd"

text \<open>
  What follows the two calls of \<^verbatim>\<open>chooseFinalLargeAlpha\<close>: the pivot, the step and the
  flip list. \<^verbatim>\<open>std::sort\<close> on pairs is the lexicographic order. The reads
  \<^verbatim>\<open>workData[breakIndex]\<close> and \<^verbatim>\<open>workGroup[breakGroup]\<close> lie outside the vectors when no
  group was found (both are \<open>-1\<close> then).
\<close>

definition chooseFinal_finish :: "HDualRow \<Rightarrow> int \<Rightarrow> int \<Rightarrow> (bool \<times> HDualRow) option" where
  "chooseFinal_finish s breakIndex breakGroup =
     (if breakIndex < 0 \<or> int (length (workData s)) \<le> breakIndex \<or>
         breakGroup < 0 \<or> int (length (workGroup s)) \<le> breakGroup
      then None
      else
        let sourceOut = sourceOut_of (workDelta s);
            pivot = fst (workData s ! nat breakIndex);
            alpha = snd (workData s ! nat breakIndex) * real_of_int sourceOut *
                      real_of_int (workMove s pivot);
            theta = (if workDual s pivot * real_of_int (workMove s pivot) > 0
                     then workDual s pivot / alpha else 0);
            k = workGroup s ! nat breakGroup
        in if length (workData s) < k then None
           else
             let wd = flip_entries s (workData s) k;
                 cnt = (if theta = 0 then 0 else k)
             in Some (False,
                  s\<lparr>workPivot := pivot, workAlpha := alpha, workTheta := Fin theta,
                    workCount := cnt, workData := sort (take cnt wd) @ drop cnt wd\<rparr>))"

text \<open>
  \<^verbatim>\<open>chooseFinal\<close> returns \<^verbatim>\<open>true\<close> when the grouping failed and \<^verbatim>\<open>false\<close> when it chose
  a pivot; \<open>None\<close> is a run that does not return (step 1 never leaves its loop) or that
  reads outside a vector.

  \<^item> With \<^verbatim>\<open>workTheta\<close> infinite on entry every threshold is infinite: step 1 either
    admits nothing new for ever or ends, the grouping loop is skipped with no group, and
    \<^verbatim>\<open>workData[breakIndex]\<close> is read at \<open>-1\<close>. The model answers \<open>None\<close>.
  \<^item> The second grouping \<^verbatim>\<open>chooseFinalWorkGroupHeap\<close>, the second call of
    \<^verbatim>\<open>chooseFinalLargeAlpha\<close> on its result and the comparison of the two pivots write
    only \<^verbatim>\<open>alt_workCount\<close>, \<^verbatim>\<open>alt_workGroup\<close> and \<^verbatim>\<open>sorted_workData\<close> and print a
    diagnostic. Nothing that \<^verbatim>\<open>chooseFinal\<close> returns or stores in \<^verbatim>\<open>workPivot\<close>,
    \<^verbatim>\<open>workAlpha\<close>, \<^verbatim>\<open>workTheta\<close>, \<^verbatim>\<open>workCount\<close> or \<^verbatim>\<open>workData\<close> reads them, and
    \<^verbatim>\<open>maxheapsort\<close> (\<^verbatim>\<open>util/HighsSort.h\<close>) is not among the sources; they are not part of
    the state here.
\<close>

definition chooseFinal :: "HDualRow \<Rightarrow> (bool \<times> HDualRow) option" where
  "chooseFinal s =
     (case workTheta s of
        PInf \<Rightarrow> None
      | Fin theta \<Rightarrow>
          if length (workData s) < workCount s then None
          else
            (case reduce_loop s (workCount s) \<bar>workDelta s\<bar>
                    (rounding s (rounding s (10 * theta) + rounding s (1 / 10 ^ 7)))
                    (workData s, 0, 0) of
               None \<Rightarrow> None
             | Some (wd, cnt) \<Rightarrow>
                 (case chooseFinalWorkGroupQuad (s\<lparr>workData := wd, workCount := cnt\<rparr>) of
                    None \<Rightarrow> None
                  | Some (choose_ok, s2) \<Rightarrow>
                      if \<not> choose_ok then Some (True, s2)
                      else
                        (case chooseFinalLargeAlpha s2 (workData s2) (workGroup s2) of
                           None \<Rightarrow> None
                         | Some (breakIndex, breakGroup) \<Rightarrow>
                             chooseFinal_finish s2 breakIndex breakGroup))))"

section \<open>Notions used to state the properties\<close>

text \<open>
  The packed positions below \<open>n\<close> whose \<^verbatim>\<open>alpha\<close> exceeds \<^verbatim>\<open>Ta\<close>, in packed order;
  the candidate entry a position gives; and the least ratio \<^verbatim>\<open>relax / alpha\<close> among
  these positions, infinite when there is none.
\<close>

definition possible_upto :: "HDualRow \<Rightarrow> nat \<Rightarrow> nat list" where
  "possible_upto s n = filter (\<lambda>i. Ta_of (update_count s) < pack_alpha s i) [0..<n]"

definition entry_of :: "HDualRow \<Rightarrow> nat \<Rightarrow> int \<times> real" where
  "entry_of s i = (packIndex s ! i, pack_alpha s i)"

definition theta_upto :: "HDualRow \<Rightarrow> nat \<Rightarrow> dbl" where
  "theta_upto s n =
     (if possible_upto s n = [] then PInf
      else Fin (Min ((\<lambda>i. pack_relax s i / pack_alpha s i) ` set (possible_upto s n))))"

text \<open>
  The entries of group \<open>g\<close>, that is \<^verbatim>\<open>workData[workGroup[g]]\<close> up to but not including
  \<^verbatim>\<open>workData[workGroup[g + 1]]\<close>. Groups are in order when each is non-empty, lies inside
  the vector and holds positive magnitudes only, as the candidates of \<^verbatim>\<open>choosePossible\<close>
  do. \<open>scan_inv\<close> is the invariant of the scan of a group over the indices \<open>S\<close> seen so
  far; \<open>none_exceeds\<close> says that no entry of group \<open>g\<close> exceeds \<^verbatim>\<open>finalCompare\<close>.
\<close>

definition group_entries :: "(int \<times> real) list \<Rightarrow> nat list \<Rightarrow> nat \<Rightarrow> (int \<times> real) list" where
  "group_entries wd wg g = map ((!) wd) [wg ! g..<wg ! Suc g]"

definition groups_ok :: "(int \<times> real) list \<Rightarrow> nat list \<Rightarrow> bool" where
  "groups_ok wd wg =
     (\<forall>g<length wg - 1. wg ! g < wg ! Suc g \<and> wg ! Suc g \<le> length wd \<and>
        (\<forall>i\<in>{wg ! g..<wg ! Suc g}. 0 < snd (wd ! i)))"

definition scan_inv :: "(int \<Rightarrow> int) \<Rightarrow> (int \<times> real) list \<Rightarrow> nat set \<Rightarrow> real \<Rightarrow> int \<Rightarrow> bool" where
  "scan_inv perm wd S d im =
     ((im < 0 \<and> d = 0 \<and> (\<forall>j\<in>S. snd (wd ! j) < 0)) \<or>
      (0 \<le> im \<and> nat im < length wd \<and> nat im \<in> S \<and> snd (wd ! nat im) = d \<and> 0 < d \<and>
       (\<forall>j\<in>S. snd (wd ! j) \<le> d \<and>
          (snd (wd ! j) = d \<longrightarrow> perm (fst (wd ! nat im)) \<le> perm (fst (wd ! j))))))"

definition none_exceeds :: "(int \<times> real) list \<Rightarrow> nat list \<Rightarrow> real \<Rightarrow> nat \<Rightarrow> bool" where
  "none_exceeds wd wg fc g = (\<forall>i\<in>{wg ! g..<wg ! Suc g}. \<not> fc < snd (wd ! i))"

text \<open>
  For the termination of the grouping loop: \<open>remain_step\<close> is the \<^verbatim>\<open>remainTheta\<close> branch
  of the inner loop alone, which is all that a pass admitting nothing runs; a loop state
  is \<open>stale\<close> when its \<^verbatim>\<open>prev_\<close> variables, its \<^verbatim>\<open>selectTheta\<close> and the \<^verbatim>\<open>remainTheta\<close>
  such a pass would compute all agree, so that the next pass either admits an entry or
  fails the stagnation check; \<open>quad_measure\<close> bounds the passes still to run.
  \<open>admits\<close> is the admission test of the inner loop on the entry at index \<open>i\<close>.
\<close>

definition remain_step :: "HDualRow \<Rightarrow> (int \<times> real) list \<Rightarrow> nat \<Rightarrow> real \<Rightarrow> real" where
  "remain_step s wd i remainTheta =
     (let Td = dual_feasibility_tolerance s;
          iCol = fst (wd ! i);
          v = snd (wd ! i);
          dual = rounding s (real_of_int (workMove s iCol) * workDual s iCol)
      in if rounding s (dual + Td) < rounding s (remainTheta * v)
         then rounding s (rounding s (dual + Td) / v) else remainTheta)"



definition admits :: "HDualRow \<Rightarrow> real \<Rightarrow> (int \<times> real) list \<Rightarrow> nat \<Rightarrow> bool" where
  "admits s selectTheta wd i =
     (rounding s (real_of_int (workMove s (fst (wd ! i))) * workDual s (fst (wd ! i)))
        \<le> rounding s (selectTheta * snd (wd ! i)))"


definition row_neg :: HDualRow where
  "row_neg =
     row0\<lparr>packCount := 1, packIndex := [3], packValue := [- 2], workDelta := - 1,
          workDual := (\<lambda>c. if c = 3 then 4 else 0), workData := [(0, 0)]\<rparr>"

definition row_one :: HDualRow where
  "row_one =
     row0\<lparr>packCount := 2, packIndex := [3, 7], packValue := [2, 0],
          workDual := (\<lambda>c. if c = 3 then 4 else 0), workData := [(0, 0), (0, 0)]\<rparr>"

text \<open>
  The scenario of the specification: the row \<open>{(3, 2.0), (7, 1.0)}\<close> with duals
  \<open>{3: 4.0, 7: 0.5}\<close>, both moves \<open>+1\<close>, tolerance \<open>1e-7\<close> and \<^verbatim>\<open>workDelta\<close> one.
\<close>

definition row_two :: HDualRow where
  "row_two =
     row0\<lparr>packCount := 2, packIndex := [3, 7], packValue := [2, 1],
          workDual := (\<lambda>c. if c = 3 then 4 else if c = 7 then 1 / 2 else 0),
          workData := [(0, 0), (0, 0)]\<rparr>"

text \<open>
  A row on which rounding keeps the one candidate out: the packed value \<open>49\<close>, the dual
  \<open>1\<close>, the tolerance zero. \<open>theta_49\<close> is the double nearest to \<open>1 / 49\<close>, and the double
  nearest to \<open>theta_49 * 49\<close> is \<open>1 - 1 / 2 ^ 53\<close>, below the dual. The rounding of the row
  is that of IEEE arithmetic at these two arguments and exact elsewhere.
  \<open>row_rounded_possible\<close> is the row as \<^verbatim>\<open>choosePossible\<close> leaves it when its division
  rounds; \<open>quad_first\<close> and \<open>quad_second\<close> are the variables of the grouping loop after
  its first and its second pass on that row.
\<close>

definition theta_49 :: real where
  "theta_49 = 5882252574524729 / 2 ^ 58"

definition row_rounded :: HDualRow where
  "row_rounded =
     row0\<lparr>rounding := (\<lambda>x. if x = 1 / 49 then theta_49
                         else if x = theta_49 * 49 then 1 - 1 / 2 ^ 53 else x),
          dual_feasibility_tolerance := 0, packCount := 1, packIndex := [3], packValue := [49],
          workDual := (\<lambda>c. if c = 3 then 1 else 0), workData := [(0, 0)]\<rparr>"

definition row_rounded_possible :: HDualRow where
  "row_rounded_possible = (choosePossible row_rounded)\<lparr>workTheta := Fin theta_49\<rparr>"



section \<open>Properties of the cut pool\<close>

lemma ageLpCut_step:
  assumes "0 \<le> c" and "c < int (length xs)" and "ndebug \<or> sint (xs ! nat c) < 0"
  shows "ageLpCut ndebug \<lparr>ages = xs, agelim = l\<rparr> c agelimit =
           (if sint (xs ! nat c - 1) < - agelimit
            then Inr (True, \<lparr>ages = xs[nat c := 0], agelim = l\<rparr>)
            else Inr (False, \<lparr>ages = xs[nat c := xs ! nat c - 1], agelim = l\<rparr>))"
  using assms by (auto simp: ageLpCut_def Let_def)

text \<open>
  C5, as the code has it: \<^verbatim>\<open>resetAge\<close> sets the age of a cut to \<open>-1\<close> when its age
  is negative (the cut is active, in the LP) and to \<open>0\<close> when its age is not negative
  (the cut is inactive); no other cut changes.
\<close>

theorem resetAge_sets_age:
  assumes "0 \<le> c" and "c < int (length (ages p))"
  shows "resetAge p c =
           Inr (p\<lparr>ages := (ages p)[nat c := (if sint (ages p ! nat c) < 0 then - 1 else 0)]\<rparr>)"
  using assms by (simp add: resetAge_def)

theorem resetAge_sets_age_witness:
  "resetAge \<lparr>ages = [- 7, 4], agelim = 5\<rparr> 0 = Inr \<lparr>ages = [- 1, 4], agelim = 5\<rparr> \<and>
   resetAge \<lparr>ages = [- 7, 4], agelim = 5\<rparr> 1 = Inr \<lparr>ages = [- 7, 0], agelim = 5\<rparr>"
  using resetAge_sets_age [of 0 "\<lparr>ages = [- 7, 4], agelim = 5\<rparr>"]
    resetAge_sets_age [of 1 "\<lparr>ages = [- 7, 4], agelim = 5\<rparr>"]
  by simp

text \<open>
  C5 as stated fails both ways: a cut that was not active (age \<open>3\<close>) is set to \<open>0\<close>,
  not \<open>-1\<close>, and a cut that was active (age \<open>-4\<close>) is set to \<open>-1\<close>, not kept at \<open>0\<close>.
\<close>

theorem resetAge_counterexample:
  "0 \<le> sint (3 :: 16 word) \<and>
   resetAge \<lparr>ages = [3], agelim = 5\<rparr> 0 = Inr \<lparr>ages = [0], agelim = 5\<rparr> \<and>
   sint (- 4 :: 16 word) < 0 \<and>
   resetAge \<lparr>ages = [- 4], agelim = 5\<rparr> 0 = Inr \<lparr>ages = [- 1], agelim = 5\<rparr>"
  by (simp add: resetAge_def)

text \<open>
  C4, as the code has it, for the age limit 5. For a cut that is active (negative age)
  \<^verbatim>\<open>resetAge\<close> sets the age to \<open>-1\<close>, and \<^verbatim>\<open>ageLpCut(cut, 5)\<close> then answers false four
  times and true on the fifth call, which sets the age to \<open>0\<close>; this holds with the
  assertion compiled in or out. For a cut that was inactive \<^verbatim>\<open>resetAge\<close> leaves the age
  at \<open>0\<close>: with the assertion compiled in, the first \<^verbatim>\<open>ageLpCut\<close> fails it; with the
  assertion compiled out, the calls answer false five times and true on the sixth, which
  sets the age to \<open>0\<close>.
\<close>

theorem ageLpCut_after_resetAge:
  assumes "0 \<le> c" and "c < int (length (ages p))"
  shows "(sint (ages p ! nat c) < 0 \<longrightarrow>
            resetAge p c = Inr (p\<lparr>ages := (ages p)[nat c := - 1]\<rparr>) \<and>
            ageLpCut_rounds ndebug c 5 5 (p\<lparr>ages := (ages p)[nat c := - 1]\<rparr>) =
              Inr ([False, False, False, False, True], p\<lparr>ages := (ages p)[nat c := 0]\<rparr>)) \<and>
         (0 \<le> sint (ages p ! nat c) \<longrightarrow>
            resetAge p c = Inr (p\<lparr>ages := (ages p)[nat c := 0]\<rparr>) \<and>
            ageLpCut False (p\<lparr>ages := (ages p)[nat c := 0]\<rparr>) c 5 = Inl AssertionFailure \<and>
            ageLpCut_rounds True c 5 6 (p\<lparr>ages := (ages p)[nat c := 0]\<rparr>) =
              Inr ([False, False, False, False, False, True],
                   p\<lparr>ages := (ages p)[nat c := 0]\<rparr>))"
proof -
  obtain xs l where p: "p = \<lparr>ages = xs, agelim = l\<rparr>" by (cases p) simp
  have n: "nat c < length xs" using assms p by simp
  have r5: "ageLpCut_rounds ndebug c 5 5 \<lparr>ages = xs[nat c := - 1], agelim = l\<rparr> =
      Inr ([False, False, False, False, True], \<lparr>ages = xs[nat c := 0], agelim = l\<rparr>)"
    using assms n p by (simp add: eval_nat_numeral ageLpCut_step)
  have r6: "ageLpCut_rounds True c 5 6 \<lparr>ages = xs[nat c := 0], agelim = l\<rparr> =
      Inr ([False, False, False, False, False, True], \<lparr>ages = xs[nat c := 0], agelim = l\<rparr>)"
    using assms n p by (simp add: eval_nat_numeral ageLpCut_step)
  have a: "ageLpCut False \<lparr>ages = xs[nat c := 0], agelim = l\<rparr> c 5 = Inl AssertionFailure"
    using assms n p by (simp add: ageLpCut_def)
  show ?thesis
    using assms n p r5 r6 a by (simp add: resetAge_def)
qed

theorem ageLpCut_after_resetAge_witness:
  "ageLpCut_rounds False 0 5 5 \<lparr>ages = [- 1], agelim = 5\<rparr> =
     Inr ([False, False, False, False, True], \<lparr>ages = [0], agelim = 5\<rparr>) \<and>
   ageLpCut_rounds True 0 5 6 \<lparr>ages = [0], agelim = 5\<rparr> =
     Inr ([False, False, False, False, False, True], \<lparr>ages = [0], agelim = 5\<rparr>)"
  using ageLpCut_after_resetAge [of 0 "\<lparr>ages = [- 9], agelim = 5\<rparr>" False]
    ageLpCut_after_resetAge [of 0 "\<lparr>ages = [2], agelim = 5\<rparr>" False]
  by simp

text \<open>
  C4 as stated fails where \<^verbatim>\<open>assert\<close> is compiled in: after \<^verbatim>\<open>resetAge\<close> on an
  inactive cut (age \<open>3\<close>) the age is \<open>0\<close>, and six rounds of \<^verbatim>\<open>ageLpCut(cut, 5)\<close> end
  at the first call, on the failed assertion \<^verbatim>\<open>ages_[cut] < 0\<close>.
\<close>

theorem ageLpCut_counterexample:
  "resetAge \<lparr>ages = [3], agelim = 5\<rparr> 0 = Inr \<lparr>ages = [0], agelim = 5\<rparr> \<and>
   ageLpCut_rounds False 0 5 6 \<lparr>ages = [0], agelim = 5\<rparr> = Inl AssertionFailure"
  by (simp add: resetAge_def ageLpCut_def eval_nat_numeral)

section \<open>Properties of updateDual\<close>

lemma updateDual_fold:
  "fold (updateDual_step s theta) [0..<n] (wd, ch) =
     ((\<lambda>j. wd j - (\<Sum>i<n. if packIndex s ! i = j then theta * (packValue s ! i) else 0)),
      ch + (\<Sum>i<n. real_of_int (nonbasicFlag s (packIndex s ! i)) *
                    (- workValue s (packIndex s ! i) * (theta * (packValue s ! i))) * cost s))"
proof (induction n)
  case 0
  then show ?case by simp
next
  case (Suc n)
  then show ?case
    by (auto simp: updateDual_step_def Let_def fun_eq_iff)
qed

text \<open>
  C9: \<^verbatim>\<open>updateDual(theta)\<close> lowers the dual of a column \<open>j\<close> by the sum of
  \<open>theta * packValue[i]\<close> over the packed entries \<open>i\<close> whose index is \<open>j\<close>, and leaves
  the dual of a column that no packed entry names as it was.
\<close>

theorem updateDual_workDual:
  "workDual (updateDual s theta) j =
     workDual s j - (\<Sum>i<packCount s. if packIndex s ! i = j then theta * (packValue s ! i) else 0) \<and>
   ((\<forall>i<packCount s. packIndex s ! i \<noteq> j) \<longrightarrow> workDual (updateDual s theta) j = workDual s j)"
  by (simp add: updateDual_def updateDual_fold)

theorem updateDual_workDual_witness:
  "workDual (updateDual (row0\<lparr>packCount := 3, packIndex := [4, 2, 4], packValue := [1, 5, 2],
       workDual := (\<lambda>_. 10)\<rparr>) 2) 4 = 4 \<and>
   workDual (updateDual (row0\<lparr>packCount := 3, packIndex := [4, 2, 4], packValue := [1, 5, 2],
       workDual := (\<lambda>_. 10)\<rparr>) 2) 7 = 10"
  using updateDual_workDual [of "row0\<lparr>packCount := 3, packIndex := [4, 2, 4], packValue := [1, 5, 2],
       workDual := (\<lambda>_. 10)\<rparr>" 2 4]
    updateDual_workDual [of "row0\<lparr>packCount := 3, packIndex := [4, 2, 4], packValue := [1, 5, 2],
       workDual := (\<lambda>_. 10)\<rparr>" 2 7]
  by (simp add: row0_def lessThan_Suc eval_nat_numeral less_Suc_eq)

section \<open>Properties of computeDevexWeight\<close>

lemma computeDevexWeight_fold:
  "fold (computeDevexWeight_step s) [0..<n] 0 =
     (\<Sum>i<n. if nonbasicFlag s (packIndex s ! i) = 0 then 0
             else (real_of_int (work_devex_index s (packIndex s ! i)) * (packValue s ! i))\<^sup>2)"
  by (induction n) (simp_all add: computeDevexWeight_step_def Let_def power2_eq_square)

text \<open>
  C10, as the code has it: \<^verbatim>\<open>computeDevexWeight\<close> stores in \<^verbatim>\<open>computed_edge_weight\<close> the
  sum of the squares of (devex reference weight times packed value) over the packed
  entries whose column is nonbasic (\<^verbatim>\<open>nonbasicFlag_\<close> not zero), skipping the entries of
  basic columns, and changes nothing else.
\<close>

theorem computeDevexWeight_nonbasic_sum:
  "computeDevexWeight s slice_no =
     s\<lparr>computed_edge_weight :=
         (\<Sum>i<packCount s. if nonbasicFlag s (packIndex s ! i) = 0 then 0
             else (real_of_int (work_devex_index s (packIndex s ! i)) * (packValue s ! i))\<^sup>2)\<rparr>"
  by (simp add: computeDevexWeight_def computeDevexWeight_fold)

theorem computeDevexWeight_nonbasic_sum_witness:
  "computed_edge_weight
     (computeDevexWeight
        (row0\<lparr>packCount := 2, packIndex := [0, 1], packValue := [2, 3],
               nonbasicFlag := (\<lambda>c. if c = 0 then 0 else 1)\<rparr>) 0) = 9"
  using computeDevexWeight_nonbasic_sum [of
      "row0\<lparr>packCount := 2, packIndex := [0, 1], packValue := [2, 3],
             nonbasicFlag := (\<lambda>c. if c = 0 then 0 else 1)\<rparr>" 0]
  by (simp add: row0_def lessThan_Suc eval_nat_numeral)

text \<open>
  C10 as stated fails on a packed entry of a basic column: with one entry of value \<open>2\<close>,
  devex weight \<open>1\<close> and \<^verbatim>\<open>nonbasicFlag_\<close> zero the code stores \<open>0\<close>, while the sum of
  squares over every entry is \<open>4\<close>.
\<close>

theorem computeDevexWeight_counterexample:
  "computed_edge_weight
     (computeDevexWeight
        (row0\<lparr>packCount := 1, packIndex := [0], packValue := [2], nonbasicFlag := (\<lambda>_. 0)\<rparr>) 0) = 0 \<and>
   (\<Sum>i<(1::nat). (real_of_int (work_devex_index row0 ([0] ! i)) * ([2] ! i))\<^sup>2) = (4::real)"
  by (simp add: computeDevexWeight_def computeDevexWeight_step_def row0_def)

section \<open>Properties of choosePossible\<close>

lemma Ta_of_pos: "0 < Ta_of u"
  by (simp add: Ta_of_def)

lemma possible_upto_Suc:
  "possible_upto s (Suc n) =
     possible_upto s n @ (if Ta_of (update_count s) < pack_alpha s n then [n] else [])"
  by (simp add: possible_upto_def)

lemma length_possible_upto: "length (possible_upto s n) \<le> n"
  unfolding possible_upto_def
  by (metis diff_zero length_filter_le length_upt)

lemma theta_upto_Suc:
  assumes "Ta_of (update_count s) < pack_alpha s n"
  shows "theta_upto s (Suc n) =
     (if theta_times_gt (theta_upto s n) (pack_alpha s n) (pack_relax s n)
      then Fin (pack_relax s n / pack_alpha s n) else theta_upto s n)"
proof -
  have pos: "0 < pack_alpha s n"
    using assms Ta_of_pos [of "update_count s"] by linarith
  show ?thesis
  proof (cases "possible_upto s n = []")
    case True
    then show ?thesis using assms pos
      by (simp add: theta_upto_def possible_upto_Suc)
  next
    case False
    let ?A = "(\<lambda>i. pack_relax s i / pack_alpha s i) ` set (possible_upto s n)"
    let ?r = "pack_relax s n / pack_alpha s n"
    have fin: "finite ?A" and ne: "?A \<noteq> {}" using False by auto
    have img: "(\<lambda>i. pack_relax s i / pack_alpha s i) ` set (possible_upto s (Suc n)) = insert ?r ?A"
      using assms by (simp add: possible_upto_Suc)
    have mn: "Min (insert ?r ?A) = min ?r (Min ?A)"
      using fin ne by (rule Min_insert)
    have cmp: "(pack_relax s n < Min ?A * pack_alpha s n) = (?r < Min ?A)"
      using pos by (simp add: pos_divide_less_eq)
    have lhs: "theta_upto s (Suc n) = Fin (min ?r (Min ?A))"
      using assms img mn by (simp add: theta_upto_def possible_upto_Suc)
    have rhs: "theta_upto s n = Fin (Min ?A)"
      using False by (simp add: theta_upto_def)
    show ?thesis
      unfolding lhs rhs using cmp by (simp add: min_def)
  qed
qed

lemma theta_upto_Suc_skip:
  "\<not> Ta_of (update_count s) < pack_alpha s n \<Longrightarrow> theta_upto s (Suc n) = theta_upto s n"
  by (simp add: theta_upto_def possible_upto_Suc)

lemma choosePossible_fold:
  assumes "n \<le> length wd"
  shows "fold (choosePossible_step s) [0..<n] (PInf, 0, wd) =
           (theta_upto s n, length (possible_upto s n),
            map (entry_of s) (possible_upto s n) @ drop (length (possible_upto s n)) wd)"
  using assms
proof (induction n)
  case 0
  then show ?case by (simp add: theta_upto_def possible_upto_def)
next
  case (Suc n)
  let ?k = "length (possible_upto s n)"
  have k: "?k < length wd"
    using Suc.prems length_possible_upto [of s n] by linarith
  have upd: "(map (entry_of s) (possible_upto s n) @ drop ?k wd)[?k := x] =
      map (entry_of s) (possible_upto s n) @ [x] @ drop (Suc ?k) wd" for x
    using k by (simp add: list_update_append Cons_nth_drop_Suc [symmetric])
  show ?case
  proof (cases "Ta_of (update_count s) < pack_alpha s n")
    case True
    then show ?thesis
      using Suc upd [of "entry_of s n"]
      by (simp add: choosePossible_step_def Let_def theta_upto_Suc possible_upto_Suc
          entry_of_def [symmetric])
  next
    case False
    then show ?thesis
      using Suc
      by (simp add: choosePossible_step_def Let_def theta_upto_Suc_skip possible_upto_Suc)
  qed
qed

lemma choosePossible_result:
  assumes "packCount s \<le> length (workData s)"
  shows "choosePossible s =
           s\<lparr>workTheta := theta_upto s (packCount s),
             workCount := length (possible_upto s (packCount s)),
             workData := map (entry_of s) (possible_upto s (packCount s)) @
                drop (length (possible_upto s (packCount s))) (workData s)\<rparr>"
  using assms by (simp add: choosePossible_def choosePossible_fold)

text \<open>
  C6: \<^verbatim>\<open>choosePossible\<close> makes a candidate of the packed position \<open>i\<close> exactly when
  \<^verbatim>\<open>alpha = packValue[i] * sourceOut * move\<close> exceeds \<^verbatim>\<open>Ta\<close>, which is \<open>1e-9\<close> below
  ten updates, \<open>3e-8\<close> from ten to nineteen and \<open>1e-6\<close> from twenty on; the candidates
  stand in \<^verbatim>\<open>workData\<close> in packed order; and \<^verbatim>\<open>workTheta\<close> is the least
  \<open>(dual * move + Td) / alpha\<close> among them, infinite when there is none.
\<close>

theorem choosePossible_candidates:
  assumes "packCount s \<le> length (workData s)"
  shows "(let Ta = Ta_of (update_count s);
              cand = filter (\<lambda>i. Ta < pack_alpha s i) [0..<packCount s];
              s' = choosePossible s
          in Ta = (if update_count s < 10 then 1 / 10 ^ 9
                   else if update_count s < 20 then 3 / 10 ^ 8 else 1 / 10 ^ 6) \<and>
             workCount s' = length cand \<and>
             take (workCount s') (workData s') =
               map (\<lambda>i. (packIndex s ! i, pack_alpha s i)) cand \<and>
             workTheta s' =
               (if cand = [] then PInf
                else Fin (Min ((\<lambda>i. pack_relax s i / pack_alpha s i) ` set cand))))"
proof -
  have ent: "map (\<lambda>i. (packIndex s ! i, pack_alpha s i)) xs = map (entry_of s) xs" for xs
    by (simp add: entry_of_def)
  show ?thesis
    unfolding Let_def choosePossible_result [OF assms] ent
    by (simp add: Ta_of_def theta_upto_def possible_upto_def)
qed

theorem choosePossible_candidates_witness:
  "workCount (choosePossible row_two) = 2 \<and>
   take 2 (workData (choosePossible row_two)) = [(3, 2), (7, 1)] \<and>
   workTheta (choosePossible row_two) = Fin (5000001 / 10000000)"
proof -
  have a: "pack_alpha row_two 0 = 2" "pack_alpha row_two (Suc 0) = 1"
    by (simp_all add: pack_alpha_def row_two_def row0_def sourceOut_of_def)
  have r: "pack_relax row_two 0 = 40000001 / 10000000"
    "pack_relax row_two (Suc 0) = 5000001 / 10000000"
    by (simp_all add: pack_relax_def row_two_def row0_def)
  have u: "update_count row_two = 0" "packCount row_two = 2" "packIndex row_two = [3, 7]"
    "length (workData row_two) = 2"
    by (simp_all add: row_two_def row0_def)
  have l: "[0..<2] = [0, Suc 0]" by (simp add: upt_rec)
  show ?thesis
    using choosePossible_candidates [of row_two]
    by (auto simp: Let_def u l a r Ta_of_def numeral_2_eq_2)
qed

section \<open>Properties of chooseFinalLargeAlpha\<close>

lemma scan_inv_one:
  assumes "scan_inv perm wd S d im" and "i < length wd"
  shows "d < snd (wd ! i) \<Longrightarrow> scan_inv perm wd (insert i S) (snd (wd ! i)) (int i)"
    and "d = snd (wd ! i) \<Longrightarrow> 0 \<le> im \<Longrightarrow> perm (fst (wd ! i)) < perm (fst (wd ! nat im)) \<Longrightarrow>
         scan_inv perm wd (insert i S) d (int i)"
    and "d = snd (wd ! i) \<Longrightarrow> 0 \<le> im \<Longrightarrow> \<not> perm (fst (wd ! i)) < perm (fst (wd ! nat im)) \<Longrightarrow>
         scan_inv perm wd (insert i S) d im"
    and "\<not> d < snd (wd ! i) \<Longrightarrow> d \<noteq> snd (wd ! i) \<Longrightarrow> scan_inv perm wd (insert i S) d im"
proof -
  show "d < snd (wd ! i) \<Longrightarrow> scan_inv perm wd (insert i S) (snd (wd ! i)) (int i)"
    using assms unfolding scan_inv_def by force
  show "d = snd (wd ! i) \<Longrightarrow> 0 \<le> im \<Longrightarrow> perm (fst (wd ! i)) < perm (fst (wd ! nat im)) \<Longrightarrow>
         scan_inv perm wd (insert i S) d (int i)"
    using assms unfolding scan_inv_def by force
  show "d = snd (wd ! i) \<Longrightarrow> 0 \<le> im \<Longrightarrow> \<not> perm (fst (wd ! i)) < perm (fst (wd ! nat im)) \<Longrightarrow>
         scan_inv perm wd (insert i S) d im"
    using assms unfolding scan_inv_def by force
  show "\<not> d < snd (wd ! i) \<Longrightarrow> d \<noteq> snd (wd ! i) \<Longrightarrow> scan_inv perm wd (insert i S) d im"
    using assms unfolding scan_inv_def by force
qed

lemma largeAlpha_scan_inv:
  "largeAlpha_scan perm wd js (d, im) = Some (d', im') \<Longrightarrow> scan_inv perm wd S d im \<Longrightarrow>
   scan_inv perm wd (S \<union> set js) d' im'"
proof (induction js arbitrary: d im S)
  case Nil
  then show ?case by simp
next
  case (Cons i js)
  have il: "i < length wd" using Cons.prems(1) by (simp split: if_splits)
  have un: "S \<union> set (i # js) = insert i S \<union> set js" by auto
  note one = scan_inv_one [OF Cons.prems(2) il]
  have "\<exists>d1 im1. largeAlpha_scan perm wd js (d1, im1) = Some (d', im') \<and>
          scan_inv perm wd (insert i S) d1 im1"
    using Cons.prems(1) il one by (auto split: if_splits)
  then obtain d1 im1 where
    "largeAlpha_scan perm wd js (d1, im1) = Some (d', im')"
    "scan_inv perm wd (insert i S) d1 im1" by blast
  then have "scan_inv perm wd (insert i S \<union> set js) d' im'"
    by (rule Cons.IH)
  then show ?case by (simp only: un)
qed

lemma scan_inv_init: "scan_inv perm wd {} 0 (- 1)"
  by (simp add: scan_inv_def)

lemma largeAlpha_scan_group:
  assumes "largeAlpha_scan perm wd [a..<b] (0, - 1) = Some (d, im)"
  shows "scan_inv perm wd {a..<b} d im"
  using largeAlpha_scan_inv [OF assms scan_inv_init] by simp

lemma fold_max_Max:
  "fold (\<lambda>i fc. max fc (f i)) [0..<n] (a::real) = Max (insert a (f ` {..<n}))"
proof (induction n)
  case 0
  then show ?case by simp
next
  case (Suc n)
  have "Max (insert (f n) (insert a (f ` {..<n}))) = max (f n) (Max (insert a (f ` {..<n})))"
    by (rule Max_insert) auto
  then show ?case
    using Suc by (simp add: lessThan_Suc insert_commute max.commute)
qed

lemma finalCompare_of_Max:
  "finalCompare_of cnt wd = min (1 / 10 * Max (insert 0 ((\<lambda>i. snd (wd ! i)) ` {..<cnt}))) 1"
  by (simp add: finalCompare_of_def fold_max_Max)

lemma largeAlpha_groups_result:
  "largeAlpha_groups perm wd wg fc n = Some (bi, bg) \<Longrightarrow>
     (bg = - 1 \<and> bi = - 1 \<and> (\<forall>g<n. none_exceeds wd wg fc g)) \<or>
     (0 \<le> bg \<and> nat bg < n \<and> 0 \<le> bi \<and> nat bi < length wd \<and> fc < snd (wd ! nat bi) \<and>
      scan_inv perm wd {wg ! nat bg..<wg ! Suc (nat bg)} (snd (wd ! nat bi)) bi \<and>
      (\<forall>g. nat bg < g \<and> g < n \<longrightarrow> none_exceeds wd wg fc g))"
proof (induction n)
  case 0
  then show ?case by simp
next
  case (Suc g)
  from Suc.prems obtain d im where
    sc: "largeAlpha_scan perm wd [wg ! g..<wg ! Suc g] (0, - 1) = Some (d, im)"
    by (auto split: option.splits)
  have im: "0 \<le> im" "nat im < length wd" "\<not> im < 0" "\<not> int (length wd) \<le> im"
    using Suc.prems sc by (auto split: if_splits)
  have inv: "scan_inv perm wd {wg ! g..<wg ! Suc g} d im"
    using sc by (rule largeAlpha_scan_group)
  then have d: "snd (wd ! nat im) = d" and le: "\<forall>j\<in>{wg ! g..<wg ! Suc g}. snd (wd ! j) \<le> d"
    using im by (auto simp: scan_inv_def)
  show ?case
  proof (cases "fc < snd (wd ! nat im)")
    case True
    then have "bi = im" "bg = int g"
      using Suc.prems sc im by auto
    then show ?thesis
      using True im inv d by auto
  next
    case False
    then have rec: "largeAlpha_groups perm wd wg fc g = Some (bi, bg)"
      using Suc.prems sc im by auto
    have ne: "none_exceeds wd wg fc g"
      using False d le by (fastforce simp: none_exceeds_def)
    from Suc.IH [OF rec] show ?thesis
    proof
      assume "bg = - 1 \<and> bi = - 1 \<and> (\<forall>g'<g. none_exceeds wd wg fc g')"
      then show ?thesis using ne by (auto simp: less_Suc_eq)
    next
      assume "0 \<le> bg \<and> nat bg < g \<and> 0 \<le> bi \<and> nat bi < length wd \<and> fc < snd (wd ! nat bi) \<and>
        scan_inv perm wd {wg ! nat bg..<wg ! Suc (nat bg)} (snd (wd ! nat bi)) bi \<and>
        (\<forall>g'. nat bg < g' \<and> g' < g \<longrightarrow> none_exceeds wd wg fc g')"
      then show ?thesis using ne by (auto simp: less_Suc_eq)
    qed
  qed
qed

lemma largeAlpha_scan_total:
  assumes "\<forall>i\<in>set js. i < length wd \<and> 0 < snd (wd ! i)"
    and "(0 \<le> im \<and> nat im < length wd) \<or> d \<le> 0"
  shows "\<exists>r. largeAlpha_scan perm wd js (d, im) = Some r"
  using assms
proof (induction js arbitrary: d im)
  case Nil
  then show ?case by simp
next
  case (Cons i js)
  have i: "i < length wd" "0 < snd (wd ! i)" and rest: "\<forall>i\<in>set js. i < length wd \<and> 0 < snd (wd ! i)"
    using Cons.prems(1) by auto
  have a: "\<exists>r. largeAlpha_scan perm wd js (e, int i) = Some r" for e
    using i by (intro Cons.IH [OF rest]) simp
  show ?case
  proof (cases "d < snd (wd ! i)")
    case True
    then show ?thesis using i a by simp
  next
    case False
    then have "0 < d" using i by linarith
    then have im: "0 \<le> im \<and> nat im < length wd" using Cons.prems(2) by auto
    then have b: "\<exists>r. largeAlpha_scan perm wd js (d, im) = Some r"
      by (intro Cons.IH [OF rest]) simp
    show ?thesis using False i im a b by auto
  qed
qed

lemma largeAlpha_groups_total:
  assumes "groups_ok wd wg"
  shows "n \<le> length wg - 1 \<Longrightarrow> \<exists>r. largeAlpha_groups perm wd wg fc n = Some r"
proof (induction n)
  case 0
  then show ?case by simp
next
  case (Suc g)
  have g: "g < length wg - 1" using Suc.prems by simp
  then have ok: "wg ! g < wg ! Suc g" "wg ! Suc g \<le> length wd"
    "\<forall>i\<in>{wg ! g..<wg ! Suc g}. 0 < snd (wd ! i)"
    using assms by (auto simp: groups_ok_def)
  have "\<exists>r. largeAlpha_scan perm wd [wg ! g..<wg ! Suc g] (0, - 1) = Some r"
    using ok by (intro largeAlpha_scan_total) auto
  then obtain d im where
    sc: "largeAlpha_scan perm wd [wg ! g..<wg ! Suc g] (0, - 1) = Some (d, im)" by auto
  have inv: "scan_inv perm wd {wg ! g..<wg ! Suc g} d im"
    using sc by (rule largeAlpha_scan_group)
  have "wg ! g \<in> {wg ! g..<wg ! Suc g}" using ok by simp
  then have im0: "0 \<le> im \<and> nat im < length wd"
    using inv ok(3) unfolding scan_inv_def by force
  then have im: "\<not> im < 0" "\<not> int (length wd) \<le> im" by auto
  have "\<exists>r. largeAlpha_groups perm wd wg fc g = Some r"
    using Suc g by simp
  then show ?case using sc im by auto
qed

lemma set_group_entries:
  "set (group_entries wd wg g) = (\<lambda>i. wd ! i) ` {wg ! g..<wg ! Suc g}"
  by (simp add: group_entries_def)

lemma scan_inv_unique:
  assumes a: "scan_inv perm wd S d im" and b: "scan_inv perm wd' S d' im'"
    and im: "0 \<le> im" "0 \<le> im'"
    and eq: "(\<lambda>i. wd ! i) ` S = (\<lambda>i. wd' ! i) ` S"
    and inj: "inj_on perm (fst ` (\<lambda>i. wd ! i) ` S)"
  shows "d = d' \<and> fst (wd ! nat im) = fst (wd' ! nat im')"
proof -
  let ?E = "(\<lambda>i. wd ! i) ` S"
  let ?e = "wd ! nat im" and ?e' = "wd' ! nat im'"
  have A: "nat im \<in> S" "snd ?e = d"
    "\<forall>j\<in>S. snd (wd ! j) \<le> d \<and> (snd (wd ! j) = d \<longrightarrow> perm (fst ?e) \<le> perm (fst (wd ! j)))"
    using a im by (auto simp: scan_inv_def)
  have B: "nat im' \<in> S" "snd ?e' = d'"
    "\<forall>j\<in>S. snd (wd' ! j) \<le> d' \<and> (snd (wd' ! j) = d' \<longrightarrow> perm (fst ?e') \<le> perm (fst (wd' ! j)))"
    using b im by (auto simp: scan_inv_def)
  have e: "?e \<in> ?E" using A(1) by blast
  have e': "?e' \<in> ?E" using B(1) eq by blast
  have EA: "\<forall>x\<in>?E. snd x \<le> d \<and> (snd x = d \<longrightarrow> perm (fst ?e) \<le> perm (fst x))"
    using A(3) by blast
  have "\<forall>x\<in>(\<lambda>i. wd' ! i) ` S. snd x \<le> d' \<and> (snd x = d' \<longrightarrow> perm (fst ?e') \<le> perm (fst x))"
    using B(3) by blast
  then have EB: "\<forall>x\<in>?E. snd x \<le> d' \<and> (snd x = d' \<longrightarrow> perm (fst ?e') \<le> perm (fst x))"
    using eq by simp
  have "d' \<le> d" using EA e' B(2) by auto
  moreover have "d \<le> d'" using EB e A(2) by auto
  ultimately have dd: "d = d'" by simp
  have "perm (fst ?e) \<le> perm (fst ?e')" using EA e' B(2) dd by auto
  moreover have "perm (fst ?e') \<le> perm (fst ?e)" using EB e A(2) dd by auto
  ultimately have "perm (fst ?e) = perm (fst ?e')" by simp
  moreover have "fst ?e \<in> fst ` ?E" "fst ?e' \<in> fst ` ?E" using e e' by blast+
  ultimately have "fst ?e = fst ?e'" using inj by (meson inj_onD)
  then show ?thesis using dd by simp
qed

lemma groups_ok_permuted:
  assumes ok: "groups_ok wd wg" and len: "length wd' = length wd"
    and eq: "\<forall>g<length wg - 1. set (group_entries wd' wg g) = set (group_entries wd wg g)"
  shows "groups_ok wd' wg"
  unfolding groups_ok_def
proof (intro allI impI conjI ballI)
  fix g assume g: "g < length wg - 1"
  show "wg ! g < wg ! Suc g" using ok g by (simp add: groups_ok_def)
  show "wg ! Suc g \<le> length wd'" using ok g len by (simp add: groups_ok_def)
  fix i assume i: "i \<in> {wg ! g..<wg ! Suc g}"
  then have "wd' ! i \<in> set (group_entries wd' wg g)"
    unfolding set_group_entries by blast
  then have "wd' ! i \<in> (\<lambda>i. wd ! i) ` {wg ! g..<wg ! Suc g}"
    using eq g by (simp add: set_group_entries)
  then show "0 < snd (wd' ! i)"
    using ok g by (auto simp: groups_ok_def)
qed

lemma largeAlpha_groups_permuted:
  assumes ok: "groups_ok wd wg" and len: "length wd' = length wd"
    and eq: "\<forall>g<length wg - 1. set (group_entries wd' wg g) = set (group_entries wd wg g)"
    and inj: "inj_on perm (fst ` set wd)"
  shows "n \<le> length wg - 1 \<Longrightarrow> largeAlpha_groups perm wd wg fc n = Some (bi, bg) \<Longrightarrow> 0 \<le> bg \<Longrightarrow>
         \<exists>bi'. largeAlpha_groups perm wd' wg fc n = Some (bi', bg) \<and>
                0 \<le> bi' \<and> nat bi' < length wd' \<and> fst (wd' ! nat bi') = fst (wd ! nat bi)"
proof (induction n)
  case 0
  then show ?case by simp
next
  case (Suc g)
  have g: "g < length wg - 1" using Suc.prems by simp
  let ?S = "{wg ! g..<wg ! Suc g}"
  have ok': "groups_ok wd' wg" using ok len eq by (rule groups_ok_permuted)
  have rng: "wg ! g < wg ! Suc g" "wg ! Suc g \<le> length wd" "\<forall>i\<in>?S. 0 < snd (wd ! i)"
    "\<forall>i\<in>?S. 0 < snd (wd' ! i)"
    using ok ok' g by (auto simp: groups_ok_def)
  from Suc.prems obtain d im where
    sc: "largeAlpha_scan perm wd [wg ! g..<wg ! Suc g] (0, - 1) = Some (d, im)"
    by (auto split: option.splits)
  have im: "0 \<le> im" "nat im < length wd" "\<not> im < 0" "\<not> int (length wd) \<le> im"
    using Suc.prems sc by (auto split: if_splits)
  have inv: "scan_inv perm wd ?S d im"
    using sc by (rule largeAlpha_scan_group)
  have "\<exists>r. largeAlpha_scan perm wd' [wg ! g..<wg ! Suc g] (0, - 1) = Some r"
    using rng len by (intro largeAlpha_scan_total) auto
  then obtain d' im' where
    sc': "largeAlpha_scan perm wd' [wg ! g..<wg ! Suc g] (0, - 1) = Some (d', im')" by auto
  have inv': "scan_inv perm wd' ?S d' im'"
    using sc' by (rule largeAlpha_scan_group)
  have "wg ! g \<in> ?S" using rng by simp
  then have im0': "0 \<le> im' \<and> nat im' < length wd'"
    using inv' rng(4) unfolding scan_inv_def by force
  then have im': "0 \<le> im'" "nat im' < length wd'" "\<not> im' < 0" "\<not> int (length wd') \<le> im'"
    by auto
  have E: "(\<lambda>i. wd ! i) ` ?S = (\<lambda>i. wd' ! i) ` ?S"
    using eq g by (simp add: set_group_entries)
  have "(\<lambda>i. wd ! i) ` ?S \<subseteq> set wd" using rng(2) by auto
  then have inj': "inj_on perm (fst ` (\<lambda>i. wd ! i) ` ?S)"
    using inj by (meson image_mono inj_on_subset)
  have u: "d = d' \<and> fst (wd ! nat im) = fst (wd' ! nat im')"
    using inv inv' im(1) im'(1) E inj' by (rule scan_inv_unique)
  have dv: "snd (wd ! nat im) = d" "snd (wd' ! nat im') = d'"
    using inv inv' im im' by (auto simp: scan_inv_def)
  show ?case
  proof (cases "fc < d")
    case True
    then have "bi = im" "bg = int g"
      using Suc.prems sc im dv by auto
    then show ?thesis
      using True sc' im' dv u by auto
  next
    case False
    then have rec: "largeAlpha_groups perm wd wg fc g = Some (bi, bg)"
      using Suc.prems sc im dv by auto
    have "g \<le> length wg - 1" using g by simp
    from Suc.IH [OF this rec Suc.prems(3)] obtain bi' where
      "largeAlpha_groups perm wd' wg fc g = Some (bi', bg)"
      "0 \<le> bi' \<and> nat bi' < length wd' \<and> fst (wd' ! nat bi') = fst (wd ! nat bi)" by blast
    then show ?thesis
      using False sc' im' dv u by auto
  qed
qed

lemma snd_image_take:
  assumes "cnt \<le> length wd"
  shows "(\<lambda>i. snd (wd ! i)) ` {..<cnt} = snd ` set (take cnt wd)"
proof -
  have "(\<lambda>i. snd (wd ! i)) ` {..<cnt} = snd ` ((!) wd ` {0..<cnt})"
    by (simp add: image_image atLeast0LessThan)
  then show ?thesis using nth_image [OF assms] by simp
qed

lemma finalCompare_of_permuted:
  assumes "cnt \<le> length wd" and "length wd' = length wd"
    and "mset (take cnt wd') = mset (take cnt wd)"
  shows "finalCompare_of cnt wd' = finalCompare_of cnt wd"
proof -
  have "set (take cnt wd') = set (take cnt wd)"
    using assms(3) by (rule mset_eq_setD)
  then show ?thesis
    using assms by (simp add: finalCompare_of_Max snd_image_take)
qed

text \<open>
  C7: \<^verbatim>\<open>chooseFinalLargeAlpha\<close> answers for groups in order, and whatever it answers, with
  \<^verbatim>\<open>finalCompare\<close> the minimum of one and a tenth of the largest magnitude among the
  first \<^verbatim>\<open>workCount\<close> entries: either no group holds an entry above \<^verbatim>\<open>finalCompare\<close>
  and both answers are \<open>-1\<close>, or \<^verbatim>\<open>breakGroup\<close> is a group holding such an entry, no
  later group holds one, and \<^verbatim>\<open>breakIndex\<close> is an entry of \<^verbatim>\<open>breakGroup\<close> above
  \<^verbatim>\<open>finalCompare\<close> whose magnitude no entry of the group exceeds.
\<close>

theorem chooseFinalLargeAlpha_first_group_backward:
  "(workCount s \<le> length wd \<and> groups_ok wd wg \<longrightarrow>
      (\<exists>r. chooseFinalLargeAlpha s wd wg = Some r)) \<and>
   (chooseFinalLargeAlpha s wd wg = Some (breakIndex, breakGroup) \<longrightarrow>
      (let fc = min (1 / 10 * Max (insert 0 ((\<lambda>i. snd (wd ! i)) ` {..<workCount s}))) 1;
           countGroup = length wg - 1
       in (breakGroup = - 1 \<and> breakIndex = - 1 \<and> (\<forall>g<countGroup. none_exceeds wd wg fc g)) \<or>
          (0 \<le> breakGroup \<and> nat breakGroup < countGroup \<and> 0 \<le> breakIndex \<and>
           nat breakIndex \<in> {wg ! nat breakGroup..<wg ! Suc (nat breakGroup)} \<and>
           fc < snd (wd ! nat breakIndex) \<and>
           (\<forall>i\<in>{wg ! nat breakGroup..<wg ! Suc (nat breakGroup)}.
               snd (wd ! i) \<le> snd (wd ! nat breakIndex)) \<and>
           (\<forall>g. nat breakGroup < g \<and> g < countGroup \<longrightarrow> none_exceeds wd wg fc g))))"
proof (intro conjI impI)
  assume "workCount s \<le> length wd \<and> groups_ok wd wg"
  then show "\<exists>r. chooseFinalLargeAlpha s wd wg = Some r"
    using largeAlpha_groups_total [of wd wg "length wg - 1"]
    by (simp add: chooseFinalLargeAlpha_def)
next
  assume r: "chooseFinalLargeAlpha s wd wg = Some (breakIndex, breakGroup)"
  let ?fc = "min (1 / 10 * Max (insert 0 ((\<lambda>i. snd (wd ! i)) ` {..<workCount s}))) 1"
  have "largeAlpha_groups (workNumTotPermutation s) wd wg ?fc (length wg - 1) =
          Some (breakIndex, breakGroup)"
    using r by (simp add: chooseFinalLargeAlpha_def finalCompare_of_Max split: if_splits)
  from largeAlpha_groups_result [OF this]
  show "let fc = ?fc; countGroup = length wg - 1
       in (breakGroup = - 1 \<and> breakIndex = - 1 \<and> (\<forall>g<countGroup. none_exceeds wd wg fc g)) \<or>
          (0 \<le> breakGroup \<and> nat breakGroup < countGroup \<and> 0 \<le> breakIndex \<and>
           nat breakIndex \<in> {wg ! nat breakGroup..<wg ! Suc (nat breakGroup)} \<and>
           fc < snd (wd ! nat breakIndex) \<and>
           (\<forall>i\<in>{wg ! nat breakGroup..<wg ! Suc (nat breakGroup)}.
               snd (wd ! i) \<le> snd (wd ! nat breakIndex)) \<and>
           (\<forall>g. nat breakGroup < g \<and> g < countGroup \<longrightarrow> none_exceeds wd wg fc g))"
    unfolding Let_def scan_inv_def by auto
qed

text \<open>
  C3: when \<^verbatim>\<open>chooseFinalLargeAlpha\<close> finds a group, no entry of the group with the
  magnitude of the chosen one has a smaller \<^verbatim>\<open>workNumTotPermutation\<close> than the chosen
  column; and for groups in order and a permutation that is injective on the columns,
  every array that holds the same entries group by group (and among its first
  \<^verbatim>\<open>workCount\<close> entries), in any order, gives the same group and the same column.
\<close>

theorem chooseFinalLargeAlpha_tie_break:
  assumes "chooseFinalLargeAlpha s wd wg = Some (breakIndex, breakGroup)" and "0 \<le> breakGroup"
  shows "(\<forall>i\<in>{wg ! nat breakGroup..<wg ! Suc (nat breakGroup)}.
            snd (wd ! i) = snd (wd ! nat breakIndex) \<longrightarrow>
            workNumTotPermutation s (fst (wd ! nat breakIndex))
              \<le> workNumTotPermutation s (fst (wd ! i))) \<and>
         (\<forall>wd'. length wd' = length wd \<and> groups_ok wd wg \<and>
                inj_on (workNumTotPermutation s) (fst ` set wd) \<and>
                (\<forall>g<length wg - 1. mset (group_entries wd' wg g) = mset (group_entries wd wg g)) \<and>
                mset (take (workCount s) wd') = mset (take (workCount s) wd) \<longrightarrow>
            (\<exists>breakIndex'. chooseFinalLargeAlpha s wd' wg = Some (breakIndex', breakGroup) \<and>
                fst (wd' ! nat breakIndex') = fst (wd ! nat breakIndex)))"
proof (intro conjI allI impI)
  have wc: "workCount s \<le> length wd"
    using assms(1) by (simp add: chooseFinalLargeAlpha_def split: if_splits)
  have gr: "largeAlpha_groups (workNumTotPermutation s) wd wg (finalCompare_of (workCount s) wd)
              (length wg - 1) = Some (breakIndex, breakGroup)"
    using assms(1) by (simp add: chooseFinalLargeAlpha_def split: if_splits)
  from largeAlpha_groups_result [OF gr] assms(2)
  have inv: "scan_inv (workNumTotPermutation s) wd {wg ! nat breakGroup..<wg ! Suc (nat breakGroup)}
               (snd (wd ! nat breakIndex)) breakIndex" and bi: "0 \<le> breakIndex"
    by auto
  show "\<forall>i\<in>{wg ! nat breakGroup..<wg ! Suc (nat breakGroup)}.
            snd (wd ! i) = snd (wd ! nat breakIndex) \<longrightarrow>
            workNumTotPermutation s (fst (wd ! nat breakIndex))
              \<le> workNumTotPermutation s (fst (wd ! i))"
    using inv bi unfolding scan_inv_def by auto
  fix wd'
  assume h: "length wd' = length wd \<and> groups_ok wd wg \<and>
                inj_on (workNumTotPermutation s) (fst ` set wd) \<and>
                (\<forall>g<length wg - 1. mset (group_entries wd' wg g) = mset (group_entries wd wg g)) \<and>
                mset (take (workCount s) wd') = mset (take (workCount s) wd)"
  then have eq: "\<forall>g<length wg - 1. set (group_entries wd' wg g) = set (group_entries wd wg g)"
    by (metis mset_eq_setD)
  have fc: "finalCompare_of (workCount s) wd' = finalCompare_of (workCount s) wd"
    using wc h by (intro finalCompare_of_permuted) auto
  have "\<exists>bi'. largeAlpha_groups (workNumTotPermutation s) wd' wg (finalCompare_of (workCount s) wd)
           (length wg - 1) = Some (bi', breakGroup) \<and>
         0 \<le> bi' \<and> nat bi' < length wd' \<and> fst (wd' ! nat bi') = fst (wd ! nat breakIndex)"
    using h eq gr assms(2) by (intro largeAlpha_groups_permuted) auto
  then show "\<exists>breakIndex'. chooseFinalLargeAlpha s wd' wg = Some (breakIndex', breakGroup) \<and>
                fst (wd' ! nat breakIndex') = fst (wd ! nat breakIndex)"
    using wc h fc by (auto simp: chooseFinalLargeAlpha_def)
qed

lemma row0_perm: "workNumTotPermutation (row0\<lparr>workCount := n\<rparr>) = (\<lambda>c. c)"
  "workCount (row0\<lparr>workCount := n\<rparr>) = n"
  by (simp_all add: row0_def)

theorem chooseFinalLargeAlpha_first_group_backward_witness:
  "chooseFinalLargeAlpha (row0\<lparr>workCount := 3\<rparr>) [(3, 2), (7, 1), (5, 1 / 100)] [0, 2, 3] =
     Some (0, 0) \<and>
   none_exceeds [(3, 2), (7, 1), (5, 1 / 100)] [0, 2, 3] (1 / 5) 1"
proof -
  have l: "[0..<3] = [0, 1, 2]" "[0..<2] = [0, 1]" "[2..<3] = [2]"
    by (simp_all add: upt_rec)
  have e: "chooseFinalLargeAlpha (row0\<lparr>workCount := 3\<rparr>) [(3, 2), (7, 1), (5, 1 / 100)] [0, 2, 3] =
     Some (0, 0)"
    by (simp add: chooseFinalLargeAlpha_def finalCompare_of_def row0_perm l eval_nat_numeral)
  have m: "{..<3::nat} = {0, 1, 2}" by auto
  show ?thesis
    using chooseFinalLargeAlpha_first_group_backward
      [of "row0\<lparr>workCount := 3\<rparr>" "[(3, 2), (7, 1), (5, 1 / 100)]" "[0, 2, 3]" 0 0] e
    by (simp add: row0_perm m Let_def)
qed

theorem chooseFinalLargeAlpha_tie_break_witness:
  "chooseFinalLargeAlpha (row0\<lparr>workCount := 2\<rparr>) [(7, 2), (3, 2)] [0, 2] = Some (1, 0) \<and>
   (\<exists>breakIndex'.
      chooseFinalLargeAlpha (row0\<lparr>workCount := 2\<rparr>) [(3, 2), (7, 2)] [0, 2] = Some (breakIndex', 0) \<and>
      fst ([(3, 2), (7, 2 :: real)] ! nat breakIndex') = (3::int))"
proof -
  let ?s = "row0\<lparr>workCount := 2\<rparr>"
  let ?wd = "[(7, 2), (3, 2)] :: (int \<times> real) list"
  let ?wd' = "[(3, 2), (7, 2)] :: (int \<times> real) list"
  have l: "[0..<2] = [0, 1]"
    by (simp_all add: upt_rec)
  have e: "chooseFinalLargeAlpha ?s ?wd [0, 2] = Some (1, 0)"
    by (simp add: chooseFinalLargeAlpha_def finalCompare_of_def row0_perm l eval_nat_numeral)
  have h: "length ?wd' = length ?wd \<and> groups_ok ?wd [0, 2] \<and>
      inj_on (workNumTotPermutation ?s) (fst ` set ?wd) \<and>
      (\<forall>g<length [0, 2::nat] - 1.
          mset (group_entries ?wd' [0, 2] g) = mset (group_entries ?wd [0, 2] g)) \<and>
      mset (take (workCount ?s) ?wd') = mset (take (workCount ?s) ?wd)"
    by (auto simp: groups_ok_def group_entries_def row0_perm l eval_nat_numeral less_Suc_eq)
  have z: "(0::int) \<le> 0" by simp
  from chooseFinalLargeAlpha_tie_break [OF e z] h
  have "\<exists>breakIndex'. chooseFinalLargeAlpha ?s ?wd' [0, 2] = Some (breakIndex', 0) \<and>
      fst (?wd' ! nat breakIndex') = fst (?wd ! nat 1)"
    by blast
  then show ?thesis using e by simp
qed

section \<open>Properties of chooseFinalWorkGroupQuad\<close>

lemma quad_step_cases:
  assumes "quad_step s st i (wd, cnt, tc, rt) = (wd', cnt', tc', rt')"
  shows "(admits s st wd i \<and> cnt' = Suc cnt \<and> wd' = swap_entries wd cnt i) \<or>
         (\<not> admits s st wd i \<and> cnt' = cnt \<and> wd' = wd \<and> tc' = tc \<and>
            rt' = remain_step s wd i rt)"
  using assms by (auto simp: quad_step_def remain_step_def admits_def Let_def split: if_splits)

lemma swap_entries_nth_above: "a \<le> i \<Longrightarrow> i < j \<Longrightarrow> swap_entries xs a i ! j = xs ! j"
  by (simp add: swap_entries_def)

lemma quad_fold_props:
  "fold (quad_step s st) [a..<a + k] (wd, cnt, tc, rt) = (wd', cnt', tc', rt') \<Longrightarrow> cnt \<le> a \<Longrightarrow>
   cnt' = cnt + length (filter (admits s st wd) [a..<a + k]) \<and> cnt' \<le> a + k \<and>
   (\<forall>j\<ge>a + k. wd' ! j = wd ! j) \<and>
   (cnt' = cnt \<longrightarrow> wd' = wd \<and> tc' = tc \<and> rt' = fold (remain_step s wd) [a..<a + k] rt)"
proof (induction k arbitrary: wd' cnt' tc' rt')
  case 0
  then show ?case by simp
next
  case (Suc k)
  obtain wd1 c1 tc1 rt1 where
    f: "fold (quad_step s st) [a..<a + k] (wd, cnt, tc, rt) = (wd1, c1, tc1, rt1)"
    by (metis prod_cases4)
  have st: "quad_step s st (a + k) (wd1, c1, tc1, rt1) = (wd', cnt', tc', rt')"
    using Suc.prems f by simp
  note ih = Suc.IH [OF f Suc.prems(2)]
  have same: "wd1 ! (a + k) = wd ! (a + k)" using ih by simp
  then have ad: "admits s st wd1 (a + k) = admits s st wd (a + k)"
    by (simp add: admits_def)
  from quad_step_cases [OF st] show ?case
  proof
    assume c: "admits s st wd1 (a + k) \<and> cnt' = Suc c1 \<and> wd' = swap_entries wd1 c1 (a + k)"
    then have "\<forall>j\<ge>a + Suc k. wd' ! j = wd ! j"
      using ih by (simp add: swap_entries_nth_above)
    then show ?thesis using c ih ad by simp
  next
    assume c: "\<not> admits s st wd1 (a + k) \<and> cnt' = c1 \<and> wd' = wd1 \<and> tc' = tc1 \<and>
      rt' = remain_step s wd1 (a + k) rt1"
    then show ?thesis using ih ad by auto
  qed
qed

lemma upt_add_diff: "[a..<b] = [a..<a + (b - a)]"
  by (cases "a \<le> b") simp_all

lemma quad_fold_range:
  assumes "fold (quad_step s st) [cnt..<b] (wd, cnt, tc, rt) = (wd', cnt', tc', rt')"
  shows "cnt' = cnt + length (filter (admits s st wd) [cnt..<b])"
    and "cnt' \<le> cnt + (b - cnt)"
    and "cnt' = cnt \<Longrightarrow> wd' = wd \<and> tc' = tc \<and> rt' = fold (remain_step s wd) [cnt..<b] rt"
proof -
  have f: "fold (quad_step s st) [cnt..<cnt + (b - cnt)] (wd, cnt, tc, rt) = (wd', cnt', tc', rt')"
    using assms upt_add_diff [of cnt b] by simp
  have p: "cnt' = cnt + length (filter (admits s st wd) [cnt..<cnt + (b - cnt)]) \<and>
      cnt' \<le> cnt + (b - cnt) \<and> (\<forall>j\<ge>cnt + (b - cnt). wd' ! j = wd ! j) \<and>
      (cnt' = cnt \<longrightarrow> wd' = wd \<and> tc' = tc \<and>
         rt' = fold (remain_step s wd) [cnt..<cnt + (b - cnt)] rt)"
    by (rule quad_fold_props [OF f]) simp
  show "cnt' = cnt + length (filter (admits s st wd) [cnt..<b])"
    using p upt_add_diff [of cnt b] by simp
  show "cnt' \<le> cnt + (b - cnt)" using p by simp
  show "cnt' = cnt \<Longrightarrow> wd' = wd \<and> tc' = tc \<and> rt' = fold (remain_step s wd) [cnt..<b] rt"
    using p upt_add_diff [of cnt b] by simp
qed

text \<open>What a pass returns, in terms of the result of its inner loop.\<close>

lemma quad_pass_result:
  assumes "quad_pass s fullCount q = (stagnant, q')"
  shows "q_workCount q' =
       q_workCount q + length (filter (admits s (q_selectTheta q) (q_workData q))
                                 [q_workCount q..<fullCount])"
    and "q_workCount q' \<le> q_workCount q + (fullCount - q_workCount q)"
    and "q_workCount q' = q_workCount q \<Longrightarrow>
        q_workData q' = q_workData q \<and>
        q_selectTheta q' =
          fold (remain_step s (q_workData q)) [q_workCount q..<fullCount] (rounding s (10 ^ 100))"
    and "stagnant = (q_workCount q' = prev_workCount q \<and> prev_selectTheta q = q_selectTheta q' \<and>
                 prev_remainTheta q = q_selectTheta q')"
    and "\<not> stagnant \<Longrightarrow> prev_workCount q' = q_workCount q' \<and>
           prev_selectTheta q' = q_selectTheta q' \<and> prev_remainTheta q' = q_selectTheta q'"
    and "debug_num_loop q' = Suc (debug_num_loop q)"
    and "q_workGroup q' = q_workGroup q @ [q_workCount q']"
proof -
  obtain wd cnt tc rt where
    f: "fold (quad_step s (q_selectTheta q)) [q_workCount q..<fullCount]
          (q_workData q, q_workCount q, q_totalChange q, rounding s (10 ^ 100)) = (wd, cnt, tc, rt)"
    by (metis prod_cases4)
  note r = quad_fold_range [OF f]
  have c: "q_workCount q' = cnt" "q_selectTheta q' = rt" "q_workData q' = wd"
    using assms f by (auto simp: quad_pass_def Let_def split: if_splits)
  show "q_workCount q' =
       q_workCount q + length (filter (admits s (q_selectTheta q) (q_workData q))
                                 [q_workCount q..<fullCount])"
    using r(1) c by simp
  show "q_workCount q' \<le> q_workCount q + (fullCount - q_workCount q)"
    using r(2) c by simp
  show "q_workCount q' = q_workCount q \<Longrightarrow>
        q_workData q' = q_workData q \<and>
        q_selectTheta q' =
          fold (remain_step s (q_workData q)) [q_workCount q..<fullCount] (rounding s (10 ^ 100))"
    using r(3) c by simp
  show "stagnant = (q_workCount q' = prev_workCount q \<and> prev_selectTheta q = q_selectTheta q' \<and>
                 prev_remainTheta q = q_selectTheta q')"
    using assms f by (auto simp: quad_pass_def Let_def split: if_splits)
  show "\<not> stagnant \<Longrightarrow> prev_workCount q' = q_workCount q' \<and>
           prev_selectTheta q' = q_selectTheta q' \<and> prev_remainTheta q' = q_selectTheta q'"
    using assms f by (auto simp: quad_pass_def Let_def split: if_splits)
  show "debug_num_loop q' = Suc (debug_num_loop q)"
    using assms f by (auto simp: quad_pass_def Let_def split: if_splits)
  show "q_workGroup q' = q_workGroup q @ [q_workCount q']"
    using assms f by (auto simp: quad_pass_def Let_def split: if_splits)
qed






lemma theta_49_nearest:
  "\<bar>theta_49 - 1 / 49\<bar> < 1 / 2 ^ 59" "\<bar>theta_49 * 49 - (1 - 1 / 2 ^ 53)\<bar> < 1 / 2 ^ 54"
  by (simp_all add: theta_49_def)










section \<open>Properties of chooseFinal\<close>

lemma swap_entries_same: "swap_entries xs i i = xs"
  by (simp add: swap_entries_def)

lemma reduce_loop_single:
  assumes "rounding s (real_of_int (workMove s c) * workDual s c) \<le> rounding s (a * selectTheta)"
  shows "reduce_loop s (Suc 0) totalDelta selectTheta ((c, a) # rest, 0, 0) =
           Some ((c, a) # rest, Suc 0)"
  using assms
  by (subst reduce_loop.simps) (simp add: reduce_step_def Let_def swap_entries_same)

lemma quad_loop_single:
  assumes "workData s = (c, a) # rest"
    and "rounding s (real_of_int (workMove s c) * workDual s c) \<le> rounding s (t * a)"
    and "t < 10 ^ 18"
  shows "\<exists>q. quad_loop s (Suc 0) totalDelta (quad_init s t) = Some (True, q) \<and>
           q_workData q = (c, a) # rest \<and> q_workCount q = Suc 0 \<and> q_workGroup q = [0, Suc 0]"
proof -
  have p: "\<exists>q. quad_pass s (Suc 0) (quad_init s t) = (False, q) \<and>
           q_workData q = (c, a) # rest \<and> q_workCount q = Suc 0 \<and> q_workGroup q = [0, Suc 0]"
    using assms
    by (simp add: quad_pass_def quad_step_def quad_init_def Let_def swap_entries_same)
  then obtain q where q: "quad_pass s (Suc 0) (quad_init s t) = (False, q)"
    "q_workData q = (c, a) # rest" "q_workCount q = Suc 0" "q_workGroup q = [0, Suc 0]"
    by blast
  have s0: "q_selectTheta (quad_init s t) < 10 ^ 18"
    using assms(3) by (simp add: quad_init_def)
  have "quad_loop s (Suc 0) totalDelta (quad_init s t) = Some (True, q)"
    using s0 by (subst quad_loop.simps) (simp add: q)
  then show ?thesis using q by blast
qed

lemma chooseFinalLargeAlpha_single:
  assumes "workCount s = Suc 0" and "0 < a"
  shows "chooseFinalLargeAlpha s ((c, a) # rest) [0, Suc 0] = Some (0, 0)"
  using assms
  by (simp add: chooseFinalLargeAlpha_def finalCompare_of_def min_def)

lemma chooseFinal_single:
  assumes wd: "workData s = (c, a) # rest" and wc: "workCount s = Suc 0"
    and th: "workTheta s = Fin t" and a: "0 < a"
    and admit1: "rounding s (real_of_int (workMove s c) * workDual s c) \<le>
                   rounding s (a * rounding s (rounding s (10 * t) + rounding s (1 / 10 ^ 7)))"
    and admit2: "rounding s (real_of_int (workMove s c) * workDual s c) \<le> rounding s (t * a)"
    and t: "t < 10 ^ 18"
  shows "chooseFinal s =
     Some (False,
       s\<lparr>workGroup := [0, Suc 0], workPivot := c,
         workAlpha := a * real_of_int (sourceOut_of (workDelta s)) * real_of_int (workMove s c),
         workTheta := Fin (if workDual s c * real_of_int (workMove s c) > 0
            then workDual s c /
              (a * real_of_int (sourceOut_of (workDelta s)) * real_of_int (workMove s c))
            else 0),
         workCount := 0\<rparr>)"
proof -
  let ?s1 = "s\<lparr>workData := (c, a) # rest, workCount := Suc 0\<rparr>"
  have s1: "?s1 = s" using wd wc by simp
  have r: "reduce_loop s (Suc 0) \<bar>workDelta s\<bar>
      (rounding s (rounding s (10 * t) + rounding s (1 / 10 ^ 7))) ((c, a) # rest, 0, 0) =
      Some ((c, a) # rest, Suc 0)"
    using admit1 by (rule reduce_loop_single)
  obtain q where q: "quad_loop s (Suc 0) \<bar>workDelta s\<bar> (quad_init s t) = Some (True, q)"
    "q_workData q = (c, a) # rest" "q_workCount q = Suc 0" "q_workGroup q = [0, Suc 0]"
    using quad_loop_single [OF wd admit2 t] by blast
  let ?s2 = "s\<lparr>workData := (c, a) # rest, workCount := Suc 0, workGroup := [0, Suc 0]\<rparr>"
  have "chooseFinalWorkGroupQuad s = Some (True, ?s2)"
    using th wc q by (simp add: chooseFinalWorkGroupQuad_def)
  then have qd: "chooseFinalWorkGroupQuad ?s1 = Some (True, ?s2)"
    by (simp only: s1)
  have la: "chooseFinalLargeAlpha ?s2 ((c, a) # rest) [0, Suc 0] = Some (0, 0)"
    using a by (intro chooseFinalLargeAlpha_single) simp_all
  have fin: "chooseFinal_finish ?s2 0 0 =
     Some (False,
       s\<lparr>workGroup := [0, Suc 0], workPivot := c,
         workAlpha := a * real_of_int (sourceOut_of (workDelta s)) * real_of_int (workMove s c),
         workTheta := Fin (if workDual s c * real_of_int (workMove s c) > 0
            then workDual s c /
              (a * real_of_int (sourceOut_of (workDelta s)) * real_of_int (workMove s c))
            else 0),
         workCount := 0\<rparr>)"
    using wd by (simp add: chooseFinal_finish_def flip_entries_def Let_def)
  show ?thesis
    using r by (simp add: chooseFinal_def th wd wc qd la fin)
qed

lemma row_two_possible:
  "choosePossible row_two =
     row_two\<lparr>workTheta := Fin (5000001 / 10000000), workCount := 2, workData := [(3, 2), (7, 1)]\<rparr>"
proof -
  have l: "[0..<2] = [0, Suc 0]" by (simp add: upt_rec)
  show ?thesis
    by (simp add: choosePossible_def choosePossible_step_def l Let_def pack_alpha_def pack_relax_def
        row_two_def row0_def sourceOut_of_def Ta_of_def)
qed

text \<open>
  The scenario of the specification runs to the end: both columns are candidates, the
  grouping admits column \<open>7\<close> (ratio \<open>0.5\<close>) first and stops since its range covers
  \<^verbatim>\<open>workDelta\<close>, and the ratio test chooses column \<open>7\<close> with the step \<open>0.5\<close> and no flip.
\<close>

lemma chooseFinal_scenario:
  "chooseFinal (choosePossible row_two) =
     Some (False, row_two\<lparr>workTheta := Fin (1 / 2), workCount := 0, workData := [(7, 1), (3, 2)],
        workGroup := [0, Suc 0], workPivot := 7, workAlpha := 1\<rparr>)"
proof -
  define s1 where "s1 = row_two\<lparr>workTheta := Fin (5000001 / 10000000), workCount := 2,
              workData := [(3, 2), (7, 1)]\<rparr>"
  define s2 where "s2 = s1\<lparr>workData := [(7, 1), (3, 2)], workCount := Suc 0,
              workGroup := [0, Suc 0]\<rparr>"
  have p0: "choosePossible row_two = s1"
    by (simp add: row_two_possible s1_def)
  have f1: "workMove s1 = (\<lambda>_. 1)"
    "workDual s1 = (\<lambda>c. if c = 3 then 4 else if c = 7 then 1 / 2 else 0)"
    "workDelta s1 = 1" "workRange s1 = (\<lambda>_. 1)" "dual_feasibility_tolerance s1 = 1 / 10 ^ 7"
    "workTheta s1 = Fin (5000001 / 10000000)" "workCount s1 = 2" "workData s1 = [(3, 2), (7, 1)]"
    "rounding s1 = (\<lambda>x. x)"
    by (simp_all add: s1_def row_two_def row0_def)
  have f2: "workMove s2 = (\<lambda>_. 1)"
    "workDual s2 = (\<lambda>c. if c = 3 then 4 else if c = 7 then 1 / 2 else 0)"
    "workDelta s2 = 1" "workRange s2 = (\<lambda>_. 1)" "workNumTotPermutation s2 = (\<lambda>c. c)"
    "workCount s2 = Suc 0" "workData s2 = [(7, 1), (3, 2)]" "workGroup s2 = [0, Suc 0]"
    by (simp_all add: s2_def s1_def row_two_def row0_def)
  have u: "s1\<lparr>workData := [(3, 2), (7, 1)], workCount := 2\<rparr> = s1"
    by (simp add: s1_def)
  have l: "[0..<2] = [0, Suc 0]" by (simp add: upt_rec)
  have r: "reduce_loop s1 2 1 (rounding s1 (rounding s1 (10 * (5000001 / 10000000)) +
        rounding s1 (1 / 10 ^ 7))) ([(3, 2), (7, 1)], 0, 0) =
      Some ([(3, 2), (7, 1)], 2)"
    by (subst reduce_loop.simps) (simp add: reduce_step_def Let_def swap_entries_def l f1)
  define q1 where "q1 = \<lparr>q_workData = [(7, 1), (3, 2)], q_workCount = Suc 0,
      q_totalChange = 1 / 10 ^ 12 + 1, q_selectTheta = 40000001 / 20000000,
      q_workGroup = [0, Suc 0], prev_workCount = Suc 0,
      prev_remainTheta = 40000001 / 20000000, prev_selectTheta = 40000001 / 20000000,
      debug_num_loop = Suc 0\<rparr>"
  have p: "quad_pass s1 2 (quad_init s1 (5000001 / 10000000)) = (False, q1)"
    by (simp add: quad_pass_def quad_step_def quad_init_def Let_def swap_entries_def l f1 q1_def)
  have s0: "q_selectTheta (quad_init s1 (5000001 / 10000000)) < 10 ^ 18"
    by (simp add: quad_init_def)
  have br: "1 \<le> q_totalChange q1" by (simp add: q1_def)
  have ql: "quad_loop s1 2 1 (quad_init s1 (5000001 / 10000000)) = Some (True, q1)"
    using s0 br by (subst quad_loop.simps) (simp add: p)
  have qd: "chooseFinalWorkGroupQuad s1 = Some (True, s2)"
    using ql by (simp add: chooseFinalWorkGroupQuad_def f1 s2_def q1_def)
  have la: "chooseFinalLargeAlpha s2 [(7, 1), (3, 2)] [0, Suc 0] = Some (0, 0)"
    by (simp add: chooseFinalLargeAlpha_def finalCompare_of_def f2)
  have fin: "chooseFinal_finish s2 0 0 =
     Some (False, row_two\<lparr>workTheta := Fin (1 / 2), workCount := 0, workData := [(7, 1), (3, 2)],
        workGroup := [0, Suc 0], workPivot := 7, workAlpha := 1\<rparr>)"
    by (simp add: chooseFinal_finish_def flip_entries_def Let_def f2 sourceOut_of_def)
      (simp add: s2_def s1_def)
  show ?thesis
    unfolding p0
    using r by (simp add: chooseFinal_def f1 u qd f2 la fin)
qed

lemma reduce_fold_single:
  "cnt \<le> Suc 0 \<Longrightarrow> fold (reduce_step s sel) [cnt..<Suc 0] (wd, cnt, tc) = (wd', cnt', tc') \<Longrightarrow>
     wd' = wd \<and> cnt' \<le> Suc 0"
  by (cases cnt) (auto simp: reduce_step_def Let_def swap_entries_same split: if_splits)

lemma reduce_loop_single_result:
  assumes "reduce_loop s fullCount totalDelta selectTheta st = Some r"
  shows "fullCount = Suc 0 \<longrightarrow> fst (snd st) \<le> Suc 0 \<longrightarrow> fst r = fst st \<and> snd r \<le> Suc 0"
proof (rule reduce_loop.raw_induct
    [where P = "\<lambda>s fc td sel st r. fc = Suc 0 \<longrightarrow> fst (snd st) \<le> Suc 0 \<longrightarrow>
                  fst r = fst st \<and> snd r \<le> Suc 0", OF _ assms])
  fix f s fc td sel st r
  assume IH: "\<And>s fc td sel st r. f s fc td sel st = Some r \<Longrightarrow>
       fc = Suc 0 \<longrightarrow> fst (snd st) \<le> Suc 0 \<longrightarrow> fst r = fst st \<and> snd r \<le> Suc 0"
    and body: "(case fold (reduce_step s sel) [fst (snd st)..<fc] st of
         (wd, cnt, totalChange) \<Rightarrow>
           if td \<le> totalChange \<or> cnt = fc then Some (wd, cnt)
           else f s fc td (rounding s (sel * 10)) (wd, cnt, totalChange)) = Some r"
  show "fc = Suc 0 \<longrightarrow> fst (snd st) \<le> Suc 0 \<longrightarrow> fst r = fst st \<and> snd r \<le> Suc 0"
  proof (intro impI)
    assume fc: "fc = Suc 0" and c0: "fst (snd st) \<le> Suc 0"
    obtain wd cnt tc where st: "st = (wd, cnt, tc)" by (cases st) auto
    obtain wd' cnt' tc' where
      fl: "fold (reduce_step s sel) [cnt..<Suc 0] (wd, cnt, tc) = (wd', cnt', tc')"
      by (cases "fold (reduce_step s sel) [cnt..<Suc 0] (wd, cnt, tc)") auto
    have k: "wd' = wd" "cnt' \<le> Suc 0"
      using reduce_fold_single [OF _ fl] c0 st by simp_all
    show "fst r = fst st \<and> snd r \<le> Suc 0"
    proof (cases "td \<le> tc' \<or> cnt' = Suc 0")
      case True
      then have "r = (wd', cnt')" using body st fc fl by auto
      then show ?thesis using k st by simp
    next
      case False
      then have "f s fc td (rounding s (sel * 10)) (wd', cnt', tc') = Some r"
        using body st fc fl by auto
      from IH [OF this] show ?thesis using fc k st by simp
    qed
  qed
qed

lemma quad_pass_single:
  assumes "quad_pass s fc q = (stg, q')" and "fc \<le> Suc 0"
  shows "q_workData q' = q_workData q"
proof (cases "q_workCount q < fc")
  case True
  then have "q_workCount q = 0" "fc = Suc 0" using assms(2) by simp_all
  then show ?thesis
    using assms(1)
    by (auto simp: quad_pass_def quad_step_def Let_def swap_entries_same split: if_splits)
next
  case False
  then show ?thesis
    using assms(1) by (auto simp: quad_pass_def Let_def split: if_splits)
qed

lemma quad_loop_single_result:
  assumes "quad_loop s fullCount totalDelta q = Some r"
  shows "fullCount \<le> Suc 0 \<longrightarrow> q_workCount q \<le> fullCount \<longrightarrow>
         (\<forall>x\<in>set (q_workGroup q). x \<le> q_workCount q) \<longrightarrow>
         q_workData (snd r) = q_workData q \<and> q_workCount (snd r) \<le> fullCount \<and>
         (\<forall>x\<in>set (q_workGroup (snd r)). x \<le> q_workCount (snd r))"
proof (rule quad_loop.raw_induct
    [where P = "\<lambda>s fc td q r. fc \<le> Suc 0 \<longrightarrow> q_workCount q \<le> fc \<longrightarrow>
         (\<forall>x\<in>set (q_workGroup q). x \<le> q_workCount q) \<longrightarrow>
         q_workData (snd r) = q_workData q \<and> q_workCount (snd r) \<le> fc \<and>
         (\<forall>x\<in>set (q_workGroup (snd r)). x \<le> q_workCount (snd r))", OF _ assms])
  fix f s fc td q r
  assume IH: "\<And>s fc td q r. f s fc td q = Some r \<Longrightarrow>
       fc \<le> Suc 0 \<longrightarrow> q_workCount q \<le> fc \<longrightarrow>
         (\<forall>x\<in>set (q_workGroup q). x \<le> q_workCount q) \<longrightarrow>
         q_workData (snd r) = q_workData q \<and> q_workCount (snd r) \<le> fc \<and>
         (\<forall>x\<in>set (q_workGroup (snd r)). x \<le> q_workCount (snd r))"
    and body: "(if q_selectTheta q < 10 ^ 18
         then case quad_pass s fc q of
              (stagnant, q') \<Rightarrow>
                if stagnant then Some (False, q')
                else if td \<le> q_totalChange q' \<or> q_workCount q' = fc then Some (True, q')
                     else f s fc td q'
         else Some (True, q)) = Some r"
  show "fc \<le> Suc 0 \<longrightarrow> q_workCount q \<le> fc \<longrightarrow>
         (\<forall>x\<in>set (q_workGroup q). x \<le> q_workCount q) \<longrightarrow>
         q_workData (snd r) = q_workData q \<and> q_workCount (snd r) \<le> fc \<and>
         (\<forall>x\<in>set (q_workGroup (snd r)). x \<le> q_workCount (snd r))"
  proof (intro impI)
    assume fc: "fc \<le> Suc 0" and c0: "q_workCount q \<le> fc"
      and g0: "\<forall>x\<in>set (q_workGroup q). x \<le> q_workCount q"
    show "q_workData (snd r) = q_workData q \<and> q_workCount (snd r) \<le> fc \<and>
         (\<forall>x\<in>set (q_workGroup (snd r)). x \<le> q_workCount (snd r))"
    proof (cases "q_selectTheta q < 10 ^ 18")
      case False
      then have "r = (True, q)" using body by simp
      then show ?thesis using c0 g0 by simp
    next
      case True
      obtain stg q1 where p: "quad_pass s fc q = (stg, q1)"
        by (cases "quad_pass s fc q") auto
      have d1: "q_workData q1 = q_workData q" using quad_pass_single [OF p fc] .
      have c1: "q_workCount q \<le> q_workCount q1" using quad_pass_result(1) [OF p] by simp
      have c2: "q_workCount q1 \<le> fc" using quad_pass_result(2) [OF p] c0 by simp
      have g1: "\<forall>x\<in>set (q_workGroup q1). x \<le> q_workCount q1"
        using quad_pass_result(7) [OF p] g0 c1 by auto
      show ?thesis
      proof (cases "stg \<or> td \<le> q_totalChange q1 \<or> q_workCount q1 = fc")
        case True
        then have "snd r = q1" using body \<open>q_selectTheta q < 10 ^ 18\<close> p by (auto split: if_splits)
        then show ?thesis using d1 c2 g1 by simp
      next
        case False
        then have "f s fc td q1 = Some r"
          using body \<open>q_selectTheta q < 10 ^ 18\<close> p by (auto split: if_splits)
        from IH [OF this] show ?thesis using fc c2 g1 d1 by simp
      qed
    qed
  qed
qed

lemma chooseFinal_single_pivot:
  assumes wd: "workData s = (c, a) # rest" and wc: "workCount s = Suc 0"
    and res: "chooseFinal s = Some (False, s')"
  shows "workPivot s' = c \<and> workCount s' = 0 \<and>
         workAlpha s' = a * real_of_int (sourceOut_of (workDelta s)) * real_of_int (workMove s c) \<and>
         workTheta s' = Fin (if workDual s c * real_of_int (workMove s c) > 0
            then workDual s c /
              (a * real_of_int (sourceOut_of (workDelta s)) * real_of_int (workMove s c))
            else 0)"
proof -
  from res obtain theta where th: "workTheta s = Fin theta"
    by (cases "workTheta s") (simp_all add: chooseFinal_def)
  define sel where "sel = rounding s (rounding s (10 * theta) + rounding s (1 / 10 ^ 7))"
  from res th obtain wd1 cnt1 where
    r: "reduce_loop s (Suc 0) \<bar>workDelta s\<bar> sel ((c, a) # rest, 0, 0) = Some (wd1, cnt1)"
    unfolding sel_def
    by (auto simp: chooseFinal_def wd wc split: if_splits option.splits)
  have r1: "wd1 = (c, a) # rest" "cnt1 \<le> Suc 0"
    using reduce_loop_single_result [OF r] by simp_all
  define s1 where "s1 = s\<lparr>workData := wd1, workCount := cnt1\<rparr>"
  have f1: "workTheta s1 = Fin theta" "workCount s1 = cnt1" "workData s1 = (c, a) # rest"
    by (simp_all add: s1_def th r1)
  from res th r obtain ok s2 where
    q: "chooseFinalWorkGroupQuad s1 = Some (ok, s2)"
    unfolding sel_def s1_def
    by (auto simp: chooseFinal_def wd wc split: if_splits option.splits)
  have ok: "ok"
    using res th r q unfolding sel_def s1_def
    by (auto simp: chooseFinal_def wd wc split: if_splits)
  from q obtain qf where
    ql: "quad_loop s1 cnt1 \<bar>workDelta s1\<bar> (quad_init s1 theta) = Some (ok, qf)"
    and s2: "s2 = s1\<lparr>workData := q_workData qf, workCount := q_workCount qf,
                      workGroup := q_workGroup qf\<rparr>"
    by (auto simp: chooseFinalWorkGroupQuad_def f1 split: option.splits)
  have qi: "q_workData qf = (c, a) # rest" "q_workCount qf \<le> Suc 0"
    "\<forall>x\<in>set (q_workGroup qf). x \<le> q_workCount qf"
    using quad_loop_single_result [OF ql] r1(2)
    by (simp_all add: quad_init_def f1)
  define wg where "wg = q_workGroup qf"
  have f2: "workData s2 = (c, a) # rest" "workCount s2 = q_workCount qf" "workGroup s2 = wg"
    "workMove s2 = workMove s" "workDual s2 = workDual s" "workDelta s2 = workDelta s"
    by (simp_all add: s2 s1_def qi wg_def)
  from res th r q ok obtain bi bg where
    la: "chooseFinalLargeAlpha s2 ((c, a) # rest) wg = Some (bi, bg)"
    and fin: "chooseFinal_finish s2 bi bg = Some (False, s')"
    unfolding sel_def s1_def
    by (auto simp: chooseFinal_def wd wc f2 [unfolded s1_def] split: if_splits option.splits)
  have b: "0 \<le> bi" "0 \<le> bg" "nat bg < length wg"
    using fin by (auto simp: chooseFinal_finish_def f2 split: if_splits)
  from la have "largeAlpha_groups (workNumTotPermutation s2) ((c, a) # rest) wg
      (finalCompare_of (workCount s2) ((c, a) # rest)) (length wg - 1) = Some (bi, bg)"
    by (auto simp: chooseFinalLargeAlpha_def split: if_splits)
  from largeAlpha_groups_result [OF this] b
  have g: "nat bg < length wg - 1"
    and sc: "scan_inv (workNumTotPermutation s2) ((c, a) # rest)
       {wg ! nat bg..<wg ! Suc (nat bg)} (snd (((c, a) # rest) ! nat bi)) bi"
    by auto
  have mem: "nat bi \<in> {wg ! nat bg..<wg ! Suc (nat bg)}"
    using sc b by (auto simp: scan_inv_def)
  have "wg ! Suc (nat bg) \<in> set wg" using g by (intro nth_mem) simp
  then have "wg ! Suc (nat bg) \<le> Suc 0" using qi(2,3) by (auto simp: wg_def)
  then have z: "nat bi = 0" "wg ! nat bg = 0" using mem by auto
  show ?thesis
    using fin z b
    by (auto simp: chooseFinal_finish_def f2 Let_def flip_entries_def split: if_splits)
qed

lemma chooseFinal_single_stagnates:
  assumes wd: "workData s = (c, a) # rest" and wc: "workCount s = Suc 0"
    and th: "workTheta s = Fin t" and t: "t < 10 ^ 18"
    and admit1: "rounding s (real_of_int (workMove s c) * workDual s c) \<le>
                   rounding s (a * rounding s (rounding s (10 * t) + rounding s (1 / 10 ^ 7)))"
    and admit2: "\<not> rounding s (real_of_int (workMove s c) * workDual s c) \<le> rounding s (t * a)"
    and remain: "rounding s (rounding s (real_of_int (workMove s c) * workDual s c) +
                    dual_feasibility_tolerance s) < rounding s (rounding s (10 ^ 100) * a)"
    and same: "rounding s (rounding s (rounding s (real_of_int (workMove s c) * workDual s c) +
                    dual_feasibility_tolerance s) / a) = t"
    and delta: "rounding s (1 / 10 ^ 12) < \<bar>workDelta s\<bar>"
  shows "\<exists>wg. chooseFinal s = Some (True, s\<lparr>workCount := 0, workGroup := wg\<rparr>)"
proof -
  let ?s1 = "s\<lparr>workData := (c, a) # rest, workCount := Suc 0\<rparr>"
  have s1: "?s1 = s" using wd wc by simp
  have r: "reduce_loop s (Suc 0) \<bar>workDelta s\<bar>
      (rounding s (rounding s (10 * t) + rounding s (1 / 10 ^ 7))) ((c, a) # rest, 0, 0) =
      Some ((c, a) # rest, Suc 0)"
    using admit1 by (rule reduce_loop_single)
  let ?big = "rounding s (10 ^ 100)"
  define tc where "tc = rounding s (1 / 10 ^ 12)"
  have step: "fold (quad_step s t) [0..<Suc 0] ((c, a) # rest, 0, tc, ?big) = ((c, a) # rest, 0, tc, t)"
    using admit2 remain same by (simp add: quad_step_def Let_def)
  define q0 where "q0 = \<lparr>q_workData = (c, a) # rest, q_workCount = 0, q_totalChange = tc,
      q_selectTheta = t, q_workGroup = [0], prev_workCount = 0,
      prev_remainTheta = ?big, prev_selectTheta = t, debug_num_loop = 0\<rparr>"
  define q1 where "q1 = \<lparr>q_workData = (c, a) # rest, q_workCount = 0, q_totalChange = tc,
      q_selectTheta = t, q_workGroup = [0, 0], prev_workCount = 0,
      prev_remainTheta = t, prev_selectTheta = t, debug_num_loop = Suc 0\<rparr>"
  define q2 where "q2 = \<lparr>q_workData = (c, a) # rest, q_workCount = 0, q_totalChange = tc,
      q_selectTheta = t, q_workGroup = [0, 0, 0], prev_workCount = 0,
      prev_remainTheta = t, prev_selectTheta = t, debug_num_loop = Suc (Suc 0)\<rparr>"
  have i: "quad_init s t = q0"
    by (simp add: quad_init_def q0_def wd tc_def)
  have p1: "quad_pass s (Suc 0) q0 = (?big = t, q1)"
    using step by (auto simp: quad_pass_def q0_def q1_def Let_def)
  have p2: "quad_pass s (Suc 0) q1 = (True, q2)"
    using step by (simp add: quad_pass_def q1_def q2_def)
  have l2: "quad_loop s (Suc 0) \<bar>workDelta s\<bar> q1 = Some (False, q2)"
    using t by (subst quad_loop.simps) (simp add: p2, simp add: q1_def)
  have d: "\<not> \<bar>workDelta s\<bar> \<le> tc" using delta by (simp add: tc_def)
  have "\<exists>q. quad_loop s (Suc 0) \<bar>workDelta s\<bar> q0 = Some (False, q) \<and>
          q_workData q = (c, a) # rest \<and> q_workCount q = 0"
  proof (cases "?big = t")
    case True
    have "quad_loop s (Suc 0) \<bar>workDelta s\<bar> q0 = Some (False, q1)"
      using t True by (subst quad_loop.simps) (simp add: p1, simp add: q0_def)
    then show ?thesis by (simp add: q1_def)
  next
    case False
    have "quad_loop s (Suc 0) \<bar>workDelta s\<bar> q0 = Some (False, q2)"
      using t False d l2
      by (subst quad_loop.simps) (simp add: p1, simp add: q0_def q1_def)
    then show ?thesis by (simp add: q2_def)
  qed
  then obtain q where q: "quad_loop s (Suc 0) \<bar>workDelta s\<bar> q0 = Some (False, q)"
    "q_workData q = (c, a) # rest" "q_workCount q = 0"
    by blast
  have "chooseFinalWorkGroupQuad s =
      Some (False, s\<lparr>workData := (c, a) # rest, workCount := 0, workGroup := q_workGroup q\<rparr>)"
    using th wc q i by (simp add: chooseFinalWorkGroupQuad_def)
  then have qd: "chooseFinalWorkGroupQuad ?s1 =
      Some (False, s\<lparr>workCount := 0, workGroup := q_workGroup q\<rparr>)"
    using wd by (simp add: s1)
  have "chooseFinal s = Some (True, s\<lparr>workCount := 0, workGroup := q_workGroup q\<rparr>)"
    using r by (simp add: chooseFinal_def th wd wc qd)
  then show ?thesis by blast
qed







lemma choosePossible_single:
  assumes room: "packCount s \<le> length (workData s)"
    and one: "filter (\<lambda>i. Ta_of (update_count s) < pack_alpha s i) [0..<packCount s] = [i]"
  shows "choosePossible s =
           s\<lparr>workTheta := Fin (pack_relax s i / pack_alpha s i), workCount := Suc 0,
             workData := (packIndex s ! i, pack_alpha s i) # drop (Suc 0) (workData s)\<rparr>"
  using choosePossible_result [OF room] one
  by (simp add: possible_upto_def theta_upto_def entry_of_def)

lemma unit_move_step:
  assumes "\<bar>m\<bar> = (1::int)" and "so = 1 \<or> so = - (1::real)" and "0 < a"
  shows "(if d * real_of_int m > 0 then d / (a * so * real_of_int m) else 0) =
         so * max 0 (d * real_of_int m) / a"
proof -
  have "m = 1 \<or> m = - 1" using assms(1) by linarith
  then show ?thesis using assms(2) by (auto simp: max_def)
qed

text \<open>
  C1, as the code has it. Let exactly one packed position \<open>i\<close> pass the filter of
  \<^verbatim>\<open>choosePossible\<close>, in a row whose \<^verbatim>\<open>workData\<close> has room for the packed entries, and
  let \<open>t\<close> be the step bound that \<^verbatim>\<open>choosePossible\<close> stored, whatever its division
  rounded to. Write \<open>dual * move\<close> for the slack of the column and \<open>fl\<close> for the rounding.

  \<^item> Every run of \<^verbatim>\<open>chooseFinal\<close> that returns \<^verbatim>\<open>false\<close> has chosen the column of \<open>i\<close> as
    \<^verbatim>\<open>workPivot\<close> with an empty flip list, \<^verbatim>\<open>workAlpha = alpha * sourceOut * move\<close>, and
    the step \<^verbatim>\<open>workTheta = workDual[workPivot] / workAlpha\<close> when \<open>dual * move\<close> is positive
    and zero otherwise; for a move of \<open>+1\<close> or \<open>-1\<close> that step is
    \<open>sourceOut * max(0, dual * move) / alpha\<close>.
  \<^item> \<^verbatim>\<open>chooseFinal\<close> returns \<^verbatim>\<open>false\<close> when \<open>t\<close> is below \<open>1e18\<close> and the candidate passes
    the admission tests of both loops as the machine evaluates them:
    \<open>fl(dual * move) \<le> fl(alpha * fl(fl(10 * t) + 1e-7))\<close> and
    \<open>fl(dual * move) \<le> fl(t * alpha)\<close>.
  \<^item> In exact arithmetic both tests pass when the tolerance \<^verbatim>\<open>Td\<close> is not negative, the
    candidate is dual feasible within it (\<open>dual * move + Td \<ge> 0\<close>) and the ratio
    \<open>(dual * move + Td) / alpha\<close> is below \<open>1e18\<close>: then \<^verbatim>\<open>choosePossible\<close> followed by
    \<^verbatim>\<open>chooseFinal\<close> returns \<^verbatim>\<open>false\<close> with that pivot and that step.
  \<^item> When the candidate passes the first test and fails the second, and the grouping loop
    recomputes the ratio \<open>t\<close> from it (\<open>fl(fl(fl(dual * move) + Td) / alpha) = t\<close>, with
    \<open>fl(1e-12) < |workDelta|\<close>), the grouping stagnates and \<^verbatim>\<open>chooseFinal\<close> returns the
    failure signal \<^verbatim>\<open>true\<close> with no pivot chosen.
\<close>

theorem ratio_test_single_candidate:
  assumes room: "packCount s \<le> length (workData s)"
    and one: "filter (\<lambda>i. Ta_of (update_count s) < pack_alpha s i) [0..<packCount s] = [i]"
  shows "let c = packIndex s ! i;
             a = pack_alpha s i;
             so = real_of_int (sourceOut_of (workDelta s));
             mv = real_of_int (workMove s c);
             dual = workDual s c;
             Td = dual_feasibility_tolerance s;
             fl = rounding s;
             step = (if dual * mv > 0 then dual / (a * so * mv) else 0);
             s1 = (choosePossible s)\<lparr>workTheta := Fin t\<rparr>
         in (\<forall>s'. chooseFinal s1 = Some (False, s') \<longrightarrow>
               workPivot s' = c \<and> workCount s' = 0 \<and> workAlpha s' = a * so * mv \<and>
               workTheta s' = Fin step \<and>
               (\<bar>workMove s c\<bar> = 1 \<longrightarrow> step = so * max 0 (dual * mv) / a)) \<and>
            (t < 10 ^ 18 \<and>
             fl (mv * dual) \<le> fl (a * fl (fl (10 * t) + fl (1 / 10 ^ 7))) \<and>
             fl (mv * dual) \<le> fl (t * a) \<longrightarrow>
               (\<exists>s'. chooseFinal s1 = Some (False, s'))) \<and>
            (fl = (\<lambda>x. x) \<and> 0 \<le> Td \<and> 0 \<le> pack_relax s i \<and>
             pack_relax s i / a < 10 ^ 18 \<longrightarrow>
               (\<exists>s'. chooseFinal (choosePossible s) = Some (False, s') \<and>
                  workPivot s' = c \<and> workCount s' = 0 \<and> workTheta s' = Fin step)) \<and>
            (t < 10 ^ 18 \<and>
             fl (mv * dual) \<le> fl (a * fl (fl (10 * t) + fl (1 / 10 ^ 7))) \<and>
             \<not> fl (mv * dual) \<le> fl (t * a) \<and>
             fl (fl (mv * dual) + Td) < fl (fl (10 ^ 100) * a) \<and>
             fl (fl (fl (mv * dual) + Td) / a) = t \<and>
             fl (1 / 10 ^ 12) < \<bar>workDelta s\<bar> \<longrightarrow>
               (\<exists>s'. chooseFinal s1 = Some (True, s') \<and> workCount s' = 0 \<and>
                  workPivot s' = workPivot s \<and> workAlpha s' = workAlpha s))"
proof -
  let ?c = "packIndex s ! i" and ?a = "pack_alpha s i"
  let ?so = "real_of_int (sourceOut_of (workDelta s))" and ?mv = "real_of_int (workMove s ?c)"
  let ?step = "if workDual s ?c * ?mv > 0 then workDual s ?c / (?a * ?so * ?mv) else 0"
  let ?rest = "drop (Suc 0) (workData s)"
  define s1 where "s1 = s\<lparr>workTheta := Fin t, workCount := Suc 0, workData := (?c, ?a) # ?rest\<rparr>"
  define s0 where "s0 = s\<lparr>workTheta := Fin (pack_relax s i / ?a), workCount := Suc 0,
      workData := (?c, ?a) # ?rest\<rparr>"
  have p: "choosePossible s = s0"
    unfolding s0_def using room one by (rule choosePossible_single)
  have e: "(choosePossible s)\<lparr>workTheta := Fin t\<rparr> = s1"
    by (simp add: p s0_def s1_def)
  have f1: "workData s1 = (?c, ?a) # ?rest" "workCount s1 = Suc 0" "workTheta s1 = Fin t"
    "rounding s1 = rounding s" "workMove s1 = workMove s" "workDual s1 = workDual s"
    "workDelta s1 = workDelta s" "dual_feasibility_tolerance s1 = dual_feasibility_tolerance s"
    by (simp_all add: s1_def)
  have f0: "workData s0 = (?c, ?a) # ?rest" "workCount s0 = Suc 0"
    "workTheta s0 = Fin (pack_relax s i / ?a)"
    "rounding s0 = rounding s" "workMove s0 = workMove s" "workDual s0 = workDual s"
    "workDelta s0 = workDelta s"
    by (simp_all add: s0_def)
  have "i \<in> set (filter (\<lambda>i. Ta_of (update_count s) < pack_alpha s i) [0..<packCount s])"
    using one by simp
  then have "Ta_of (update_count s) < ?a" by simp
  then have a: "0 < ?a" using Ta_of_pos [of "update_count s"] by linarith
  have so: "?so = 1 \<or> ?so = - 1" by (simp add: sourceOut_of_def)
  have c1: "\<forall>s'. chooseFinal s1 = Some (False, s') \<longrightarrow>
       workPivot s' = ?c \<and> workCount s' = 0 \<and> workAlpha s' = ?a * ?so * ?mv \<and>
       workTheta s' = Fin ?step \<and>
       (\<bar>workMove s ?c\<bar> = 1 \<longrightarrow> ?step = ?so * max 0 (workDual s ?c * ?mv) / ?a)"
  proof (intro allI impI conjI)
    fix s' assume r: "chooseFinal s1 = Some (False, s')"
    note k = chooseFinal_single_pivot [OF f1(1) f1(2) r, unfolded f1]
    show "workPivot s' = ?c" "workCount s' = 0" "workAlpha s' = ?a * ?so * ?mv"
      "workTheta s' = Fin ?step"
      using k by simp_all
  next
    assume "\<bar>workMove s ?c\<bar> = 1"
    then show "?step = ?so * max 0 (workDual s ?c * ?mv) / ?a"
      using so a by (rule unit_move_step)
  qed
  have c2: "t < 10 ^ 18 \<and>
       rounding s (?mv * workDual s ?c) \<le>
         rounding s (?a * rounding s (rounding s (10 * t) + rounding s (1 / 10 ^ 7))) \<and>
       rounding s (?mv * workDual s ?c) \<le> rounding s (t * ?a) \<longrightarrow>
         (\<exists>s'. chooseFinal s1 = Some (False, s'))"
  proof (intro impI, elim conjE)
    assume h: "t < 10 ^ 18"
      "rounding s (?mv * workDual s ?c) \<le>
         rounding s (?a * rounding s (rounding s (10 * t) + rounding s (1 / 10 ^ 7)))"
      "rounding s (?mv * workDual s ?c) \<le> rounding s (t * ?a)"
    have "\<exists>x. chooseFinal s1 = Some (False, x)"
      by (rule exI, rule chooseFinal_single [OF f1(1) f1(2) f1(3) a _ _ h(1)])
        (simp_all only: f1 h)
    then show "\<exists>s'. chooseFinal s1 = Some (False, s')" .
  qed
  have c3: "rounding s = (\<lambda>x. x) \<and> 0 \<le> dual_feasibility_tolerance s \<and> 0 \<le> pack_relax s i \<and>
       pack_relax s i / ?a < 10 ^ 18 \<longrightarrow>
         (\<exists>s'. chooseFinal (choosePossible s) = Some (False, s') \<and>
            workPivot s' = ?c \<and> workCount s' = 0 \<and> workTheta s' = Fin ?step)"
  proof (intro impI, elim conjE)
    let ?t = "pack_relax s i / ?a"
    assume ex: "rounding s = (\<lambda>x. x)" and Td: "0 \<le> dual_feasibility_tolerance s"
      and feas: "0 \<le> pack_relax s i" and fin: "?t < 10 ^ 18"
    have ta: "?t * ?a = pack_relax s i" using a by simp
    have tight: "?mv * workDual s ?c = pack_relax s i - dual_feasibility_tolerance s"
      by (simp add: pack_relax_def)
    have admit2: "?mv * workDual s ?c \<le> ?t * ?a"
      using tight ta Td by linarith
    have "?a * (10 * ?t + 1 / 10 ^ 7) = 10 * (?t * ?a) + ?a / 10 ^ 7"
      by (simp add: algebra_simps)
    then have "?a * (10 * ?t + 1 / 10 ^ 7) = 10 * pack_relax s i + ?a / 10 ^ 7"
      using ta by simp
    moreover have "0 \<le> ?a / 10 ^ 7" using a by simp
    ultimately have admit1: "?mv * workDual s ?c \<le> ?a * (10 * ?t + 1 / 10 ^ 7)"
      using tight Td feas by linarith
    have r0: "rounding s0 = (\<lambda>x. x)" using ex by (simp add: f0)
    have "chooseFinal s0 =
       Some (False,
         s0\<lparr>workGroup := [0, Suc 0], workPivot := ?c,
           workAlpha := ?a * real_of_int (sourceOut_of (workDelta s0)) *
                          real_of_int (workMove s0 ?c),
           workTheta := Fin (if workDual s0 ?c * real_of_int (workMove s0 ?c) > 0
              then workDual s0 ?c /
                (?a * real_of_int (sourceOut_of (workDelta s0)) * real_of_int (workMove s0 ?c))
              else 0),
           workCount := 0\<rparr>)"
      using admit1 admit2
      by (intro chooseFinal_single [OF f0(1) f0(2) f0(3) a _ _ fin]) (simp_all add: r0 f0)
    then show "\<exists>s'. chooseFinal (choosePossible s) = Some (False, s') \<and>
            workPivot s' = ?c \<and> workCount s' = 0 \<and> workTheta s' = Fin ?step"
      by (simp add: p f0)
  qed
  have c4: "t < 10 ^ 18 \<and>
       rounding s (?mv * workDual s ?c) \<le>
         rounding s (?a * rounding s (rounding s (10 * t) + rounding s (1 / 10 ^ 7))) \<and>
       \<not> rounding s (?mv * workDual s ?c) \<le> rounding s (t * ?a) \<and>
       rounding s (rounding s (?mv * workDual s ?c) + dual_feasibility_tolerance s) <
         rounding s (rounding s (10 ^ 100) * ?a) \<and>
       rounding s (rounding s (rounding s (?mv * workDual s ?c) + dual_feasibility_tolerance s) /
         ?a) = t \<and>
       rounding s (1 / 10 ^ 12) < \<bar>workDelta s\<bar> \<longrightarrow>
         (\<exists>s'. chooseFinal s1 = Some (True, s') \<and> workCount s' = 0 \<and>
            workPivot s' = workPivot s \<and> workAlpha s' = workAlpha s)"
  proof (intro impI, elim conjE)
    assume h: "t < 10 ^ 18"
      "rounding s (?mv * workDual s ?c) \<le>
         rounding s (?a * rounding s (rounding s (10 * t) + rounding s (1 / 10 ^ 7)))"
      "\<not> rounding s (?mv * workDual s ?c) \<le> rounding s (t * ?a)"
      "rounding s (rounding s (?mv * workDual s ?c) + dual_feasibility_tolerance s) <
         rounding s (rounding s (10 ^ 100) * ?a)"
      "rounding s (rounding s (rounding s (?mv * workDual s ?c) + dual_feasibility_tolerance s) /
         ?a) = t"
      "rounding s (1 / 10 ^ 12) < \<bar>workDelta s\<bar>"
    have "\<exists>wg. chooseFinal s1 = Some (True, s1\<lparr>workCount := 0, workGroup := wg\<rparr>)"
      using h(2-)
      by (intro chooseFinal_single_stagnates [OF f1(1) f1(2) f1(3) h(1)])
        (simp_all add: f1)
    then obtain wg where "chooseFinal s1 = Some (True, s1\<lparr>workCount := 0, workGroup := wg\<rparr>)"
      by blast
    then show "\<exists>s'. chooseFinal s1 = Some (True, s') \<and> workCount s' = 0 \<and>
            workPivot s' = workPivot s \<and> workAlpha s' = workAlpha s"
      by (simp add: s1_def)
  qed
  show ?thesis
    unfolding Let_def e
    by (intro conjI c1 c2 c3 c4)
qed

lemma row_neg_possible:
  "choosePossible row_neg =
     row_neg\<lparr>workTheta := Fin (40000001 / 20000000), workCount := Suc 0, workData := [(3, 2)]\<rparr>"
  by (simp add: choosePossible_def choosePossible_step_def Let_def pack_alpha_def pack_relax_def
      row_neg_def row0_def sourceOut_of_def Ta_of_def)

text \<open>
  C1 as stated fails when \<^verbatim>\<open>workDelta\<close> is negative. In \<open>row_neg\<close> the one packed column
  \<open>3\<close> passes the filter with magnitude \<open>alpha = 2\<close> and slack \<open>dual * move = 4\<close>; the
  ratio test chooses it with the step \<open>-2\<close>, while the slack over the magnitude is \<open>2\<close>
  (and \<open>2.00000005\<close> with the tolerance added to the slack).
\<close>

theorem ratio_test_single_candidate_counterexample:
  "filter (\<lambda>i. Ta_of (update_count row_neg) < pack_alpha row_neg i) [0..<packCount row_neg] = [0] \<and>
   (\<exists>s'. chooseFinal (choosePossible row_neg) = Some (False, s') \<and> workPivot s' = 3 \<and>
      workTheta s' = Fin (- 2)) \<and>
   workDual row_neg 3 * real_of_int (workMove row_neg 3) / pack_alpha row_neg 0 = 2 \<and>
   pack_relax row_neg 0 / pack_alpha row_neg 0 = 40000001 / 20000000"
proof -
  let ?s = "row_neg\<lparr>workTheta := Fin (40000001 / 20000000), workCount := Suc 0, workData := [(3, 2)]\<rparr>"
  have f: "workMove ?s = (\<lambda>_. 1)" "workDual ?s = (\<lambda>c. if c = 3 then 4 else 0)" "workDelta ?s = - 1"
    "rounding ?s = (\<lambda>x. x)"
    by (simp_all add: row_neg_def row0_def)
  have "chooseFinal ?s = Some (False,
       ?s\<lparr>workGroup := [0, Suc 0], workPivot := 3,
         workAlpha := 2 * real_of_int (sourceOut_of (workDelta ?s)) * real_of_int (workMove ?s 3),
         workTheta := Fin (if workDual ?s 3 * real_of_int (workMove ?s 3) > 0
            then workDual ?s 3 /
              (2 * real_of_int (sourceOut_of (workDelta ?s)) * real_of_int (workMove ?s 3))
            else 0),
         workCount := 0\<rparr>)"
    by (rule chooseFinal_single [where rest = "[]" and t = "40000001 / 20000000"]) (simp_all add: f)
  then have "\<exists>s'. chooseFinal (choosePossible row_neg) = Some (False, s') \<and> workPivot s' = 3 \<and>
      workTheta s' = Fin (- 2)"
    by (simp add: row_neg_possible f sourceOut_of_def)
  moreover have "pack_alpha row_neg 0 = 2" "pack_relax row_neg 0 = 40000001 / 10000000"
    "workDual row_neg 3 * real_of_int (workMove row_neg 3) = 4"
    "update_count row_neg = 0" "packCount row_neg = 1"
    by (simp_all add: pack_alpha_def pack_relax_def row_neg_def row0_def sourceOut_of_def)
  ultimately show ?thesis
    by (simp add: Ta_of_def)
qed

theorem ratio_test_single_candidate_witness:
  "(\<exists>s'. chooseFinal (choosePossible row_one) = Some (False, s') \<and> workPivot s' = 3 \<and>
      workCount s' = 0 \<and> workTheta s' = Fin 2) \<and>
   (\<exists>s'. chooseFinal row_rounded_possible = Some (True, s') \<and> workCount s' = 0)"
proof -
  have v: "pack_alpha row_one 0 = 2" "pack_alpha row_one (Suc 0) = 0"
    "pack_relax row_one 0 = 40000001 / 10000000"
    "update_count row_one = 0" "packCount row_one = 2" "workData row_one = [(0, 0), (0, 0)]"
    "dual_feasibility_tolerance row_one = 1 / 10 ^ 7" "packIndex row_one = [3, 7]"
    "workDelta row_one = 1" "workMove row_one = (\<lambda>_. 1)"
    "workDual row_one = (\<lambda>c. if c = 3 then 4 else 0)" "rounding row_one = (\<lambda>x. x)"
    by (simp_all add: pack_alpha_def pack_relax_def row_one_def row0_def sourceOut_of_def)
  have l: "[0..<2] = [0, Suc 0]" by (simp add: upt_rec)
  have h: "packCount row_one \<le> length (workData row_one)"
    "filter (\<lambda>i. Ta_of (update_count row_one) < pack_alpha row_one i) [0..<packCount row_one] = [0]"
    by (simp_all add: v l Ta_of_def)
  have a: "\<exists>s'. chooseFinal (choosePossible row_one) = Some (False, s') \<and> workPivot s' = 3 \<and>
      workCount s' = 0 \<and> workTheta s' = Fin 2"
    using ratio_test_single_candidate [of row_one 0 0, OF h, unfolded Let_def,
        THEN conjunct2, THEN conjunct2, THEN conjunct1]
    by (simp add: v sourceOut_of_def)
  have w: "pack_alpha row_rounded 0 = 49" "update_count row_rounded = 0"
    "packCount row_rounded = 1" "workData row_rounded = [(0, 0)]"
    "dual_feasibility_tolerance row_rounded = 0" "packIndex row_rounded = [3]"
    "workDelta row_rounded = 1" "workMove row_rounded = (\<lambda>_. 1)"
    "workDual row_rounded = (\<lambda>c. if c = 3 then 1 else 0)"
    "rounding row_rounded =
       (\<lambda>x. if x = 1 / 49 then theta_49 else if x = theta_49 * 49 then 1 - 1 / 2 ^ 53 else x)"
    by (simp_all add: pack_alpha_def row_rounded_def row0_def sourceOut_of_def)
  have k: "packCount row_rounded \<le> length (workData row_rounded)"
    "filter (\<lambda>i. Ta_of (update_count row_rounded) < pack_alpha row_rounded i)
       [0..<packCount row_rounded] = [0]"
    by (simp_all add: w Ta_of_def)
  have b: "\<exists>s'. chooseFinal row_rounded_possible = Some (True, s') \<and> workCount s' = 0"
    using ratio_test_single_candidate [of row_rounded 0 theta_49, OF k, unfolded Let_def,
        THEN conjunct2, THEN conjunct2, THEN conjunct2]
    unfolding row_rounded_possible_def
    by (simp add: w) (auto simp: theta_49_def)
  show ?thesis using a b by simp
qed

end
